theory Spec2Isabelle
  imports Complex_Main "HOL-Library.AList" "HOL-Library.Char_ord" "HOL-Library.List_Lexorder"
    "HOL-Library.Log_Nat"
begin

section \<open>Paths\<close>

text \<open>
  A \<^verbatim>\<open>pathlib.Path\<close> is modelled by its \<^verbatim>\<open>parts\<close>: the list of its components.
  \<^verbatim>\<open>Path(".")\<close> has no parts; the first part of an absolute path is its anchor
  (\<^verbatim>\<open>"/"\<close>), the only part that starts with a slash. Paths compare as their lists
  of parts do, strings by code point.
\<close>

type_synonym path = "string list"

definition ROOT :: path where
  "ROOT = []"

definition is_anchor :: "string \<Rightarrow> bool" where
  "is_anchor s = (s \<noteq> [] \<and> hd s = CHR ''/'')"

text \<open>
  \<^verbatim>\<open>path.parents\<close>: the ancestors from the nearest to the farthest. A relative path
  ends at \<^verbatim>\<open>Path(".")\<close>, an absolute one at its anchor; \<^verbatim>\<open>Path(".")\<close> and an
  anchor have no parents.
\<close>

fun parents :: "path \<Rightarrow> path list" where
  "parents p =
     (if p = [] \<or> (length p = 1 \<and> is_anchor (hd p)) then []
      else butlast p # parents (butlast p))"

declare parents.simps [simp del]

section \<open>The graph\<close>

datatype error = KeyError | NetworkXError | ZeroDivisionError | RecursionError | OverflowError

text \<open>
  The attribute dictionary of a node holds at most the keys \<^verbatim>\<open>size\<close> and
  \<^verbatim>\<open>descendants\<close>; \<open>None\<close> is a missing key.
\<close>

record node_data =
  attr_size :: "int option"
  attr_descendants :: "int option"

text \<open>
  An \<^verbatim>\<open>nx.OrderedDiGraph\<close>: the nodes with their attributes in insertion order, the
  successors of each node in insertion order (no successors for a path that is not a
  node), and the two graph attributes that \<^verbatim>\<open>sizes_to_graph\<close> sets at its end.
\<close>

record graph =
  node :: "(path \<times> node_data) list"
  adj :: "path \<Rightarrow> path list"
  graph_total_size :: "int option"
  graph_total_descendants :: "int option"

definition empty_graph :: graph where
  "empty_graph = \<lparr>node = [], adj = (\<lambda>_. []), graph_total_size = None,
     graph_total_descendants = None\<rparr>"

definition has_node :: "graph \<Rightarrow> path \<Rightarrow> bool" where
  "has_node g n = (map_of (node g) n \<noteq> None)"

definition successors :: "graph \<Rightarrow> path \<Rightarrow> path list" where
  "successors g n = adj g n"

text \<open>\<^verbatim>\<open>g.add_node(n, size=s, descendants=d)\<close>: a new node, or new values for both keys.\<close>

definition add_node :: "path \<Rightarrow> int \<Rightarrow> int \<Rightarrow> graph \<Rightarrow> graph" where
  "add_node n s d g =
     g\<lparr>node := AList.update n \<lparr>attr_size = Some s, attr_descendants = Some d\<rparr> (node g)\<rparr>"

definition ensure_node :: "path \<Rightarrow> graph \<Rightarrow> graph" where
  "ensure_node n g =
     (if has_node g n then g
      else g\<lparr>node := node g @ [(n, \<lparr>attr_size = None, attr_descendants = None\<rparr>)]\<rparr>)"

text \<open>
  \<^verbatim>\<open>g.add_edge(u, v)\<close>: both ends become nodes (with no attributes) when they are
  not yet, and \<open>v\<close> becomes a successor of \<open>u\<close> unless it is one already.
\<close>

definition add_edge :: "path \<Rightarrow> path \<Rightarrow> graph \<Rightarrow> graph" where
  "add_edge u v g =
     (let g = ensure_node u g;
          g = ensure_node v g
      in g\<lparr>adj := (adj g)(u := (if v \<in> set (adj g u) then adj g u else adj g u @ [v]))\<rparr>)"

section \<open>Building the tree: \<^verbatim>\<open>sizes_to_graph\<close>\<close>

text \<open>
  The inner loop \<^verbatim>\<open>for parent in path.parents\<close>: the edge to the child is added,
  and the walk stops at the first parent that was a node before.
\<close>

fun link_parents :: "path list \<Rightarrow> path \<Rightarrow> graph \<times> int \<Rightarrow> graph \<times> int" where
  "link_parents [] child (g, total_descendants) = (g, total_descendants)"
| "link_parents (parent # ps) child (g, total_descendants) =
     (let parent_in_g = has_node g parent;
          g = add_edge parent child g
      in if parent_in_g then (g, total_descendants)
         else link_parents ps parent (g, total_descendants + 1))"

text \<open>
  The loop over the lines of the manifest; a line is taken as parsed, the path
  (all fields but the last) and the size (the last field).
\<close>

fun add_lines :: "(path \<times> int) list \<Rightarrow> graph \<times> int \<times> int \<Rightarrow> graph \<times> int \<times> int" where
  "add_lines [] st = st"
| "add_lines ((path, sz) # lines) (g, total_size, total_descendants) =
     (let g = add_node path sz 0 g;
          total_size = total_size + sz;
          total_descendants = total_descendants + 1;
          (g, total_descendants) = link_parents (parents path) path (g, total_descendants)
      in add_lines lines (g, total_size, total_descendants))"

definition sizes_to_graph :: "(path \<times> int) list \<Rightarrow> graph" where
  "sizes_to_graph lines =
     (let (g, total_size, total_descendants) = add_lines lines (empty_graph, 0, 0)
      in g\<lparr>graph_total_size := Some total_size,
           graph_total_descendants := Some (total_descendants - 1)\<rparr>)"

section \<open>Aggregates: \<^verbatim>\<open>size_descendants\<close>\<close>

definition set_data :: "path \<Rightarrow> int \<Rightarrow> int \<Rightarrow> graph \<Rightarrow> graph" where
  "set_data n s d g =
     g\<lparr>node := AList.update n \<lparr>attr_size = Some s, attr_descendants = Some d\<rparr> (node g)\<rparr>"

text \<open>
  The recursion of \<^verbatim>\<open>size_descendants\<close>, with the graph passed through since the
  function caches its result on the node. The first argument is the call depth that is
  left: Python raises \<^verbatim>\<open>RecursionError\<close> when it is used up. \<open>sum_children\<close> is
  the loop over the successors, with the running \<open>s\<close> and \<open>d\<close>.
\<close>

fun size_descendants :: "nat \<Rightarrow> graph \<Rightarrow> path \<Rightarrow> error + ((int \<times> int) \<times> graph)"
  and sum_children :: "nat \<Rightarrow> graph \<Rightarrow> path list \<Rightarrow> int \<Rightarrow> int \<Rightarrow> error + ((int \<times> int) \<times> graph)"
where
  "size_descendants 0 g n = Inl RecursionError"
| "size_descendants (Suc limit) g n =
     (case map_of (node g) n of
        None \<Rightarrow> Inl KeyError
      | Some data \<Rightarrow>
          let s = attr_size data; d = attr_descendants data in
          if d = None \<or> s = None \<or> s = Some 0 then
            (case sum_children limit g (successors g n)
                    (case s of None \<Rightarrow> 0 | Some x \<Rightarrow> x) (case d of None \<Rightarrow> 0 | Some x \<Rightarrow> x) of
               Inl e \<Rightarrow> Inl e
             | Inr ((s, d), g) \<Rightarrow> Inr ((s, d), set_data n s d g))
          else Inr ((the s, the d), g))"
| "sum_children limit g [] s d = Inr ((s, d), g)"
| "sum_children limit g (child # children) s d =
     (case size_descendants limit g child of
        Inl e \<Rightarrow> Inl e
      | Inr ((c_s, c_d), g) \<Rightarrow> sum_children limit g children (s + c_s) (d + (1 + c_d)))"

definition node_size :: "nat \<Rightarrow> graph \<Rightarrow> path \<Rightarrow> error + (int \<times> graph)" where
  "node_size limit g n =
     (case size_descendants limit g n of Inl e \<Rightarrow> Inl e | Inr ((s, d), g) \<Rightarrow> Inr (s, g))"

definition node_descendants :: "nat \<Rightarrow> graph \<Rightarrow> path \<Rightarrow> error + (int \<times> graph)" where
  "node_descendants limit g n =
     (case size_descendants limit g n of Inl e \<Rightarrow> Inl e | Inr ((s, d), g) \<Rightarrow> Inr (d, g))"

section \<open>Python's floats\<close>

text \<open>
  A Python \<^verbatim>\<open>float\<close> is an IEEE 754 binary64 number: a rational with a 53-bit
  significand, or an infinity. \<open>to_double\<close> rounds a rational to the nearest such
  number, ties to the even significand: below \<open>2 ^ - 1022\<close> the spacing stays
  \<open>2 ^ - 1074\<close> (subnormal numbers), and a result of \<open>2 ^ 1024\<close> or more is an
  infinity.
\<close>

datatype pyfloat = Finite rat | PosInf | NegInf

definition pow2 :: "int \<Rightarrow> rat" where
  "pow2 e = (if 0 \<le> e then 2 ^ nat e else 1 / 2 ^ nat (- e))"

text \<open>The exponent \<open>e\<close> with \<open>2 ^ e \<le> q < 2 ^ (e + 1)\<close>, for a positive \<open>q\<close>.\<close>

definition floor_log2 :: "rat \<Rightarrow> int" where
  "floor_log2 q =
     (let (n, d) = quotient_of q; k = bitlen n - bitlen d
      in if pow2 k \<le> q then k else k - 1)"

definition round_half_even :: "rat \<Rightarrow> int" where
  "round_half_even q =
     (let f = \<lfloor>q\<rfloor>; r = q - of_int f
      in if r < 1 / 2 then f else if 1 / 2 < r then f + 1 else if even f then f else f + 1)"

definition to_double :: "rat \<Rightarrow> pyfloat" where
  "to_double q =
     (if q = 0 then Finite 0
      else
        let a = \<bar>q\<bar>;
            e = max (floor_log2 a) (- 1022);
            quantum = pow2 (e - 52);
            r = of_int (round_half_even (a / quantum)) * quantum
        in if pow2 1024 \<le> r then (if 0 < q then PosInf else NegInf)
           else Finite (if 0 < q then r else - r))"

text \<open>
  \<^verbatim>\<open>a / b\<close> on two \<^verbatim>\<open>int\<close>s: the correctly rounded quotient, \<^verbatim>\<open>ZeroDivisionError\<close>
  for a zero divisor, \<^verbatim>\<open>OverflowError\<close> when the quotient is too large for a float.
\<close>

definition int_truediv :: "int \<Rightarrow> int \<Rightarrow> error + rat" where
  "int_truediv a b =
     (if b = 0 then Inl ZeroDivisionError
      else case to_double (of_int a / of_int b) of
             Finite r \<Rightarrow> Inr r
           | _ \<Rightarrow> Inl OverflowError)"

text \<open>The conversion of an \<^verbatim>\<open>int\<close> operand of a float operation.\<close>

definition int_to_float :: "int \<Rightarrow> error + rat" where
  "int_to_float a = (case to_double (of_int a) of Finite r \<Rightarrow> Inr r | _ \<Rightarrow> Inl OverflowError)"

text \<open>\<^verbatim>\<open>a / b\<close> on two finite floats: \<^verbatim>\<open>ZeroDivisionError\<close> for \<^verbatim>\<open>b == 0.0\<close>.\<close>

definition float_div :: "rat \<Rightarrow> rat \<Rightarrow> error + pyfloat" where
  "float_div a b = (if b = 0 then Inl ZeroDivisionError else Inr (to_double (a / b)))"

text \<open>
  \<^verbatim>\<open>x < y\<close> for a float \<open>x\<close> and a finite number \<open>y\<close> (an \<^verbatim>\<open>int\<close> or a float):
  Python compares the exact values.
\<close>

definition float_lt :: "pyfloat \<Rightarrow> rat \<Rightarrow> bool" where
  "float_lt x y = (case x of Finite r \<Rightarrow> r < y | PosInf \<Rightarrow> False | NegInf \<Rightarrow> True)"

section \<open>The traversal: \<^verbatim>\<open>dfs\<close>\<close>

type_synonym decision = "graph \<Rightarrow> path \<Rightarrow> error + ((bool \<times> bool) \<times> graph)"

text \<open>
  The \<^verbatim>\<open>while to_visit\<close> loop of the generator. \<open>out\<close> collects the nodes yielded so
  far, each with the graph as it is at the moment of the \<^verbatim>\<open>yield\<close>, when the consumer
  runs. The result is \<open>None\<close> when the loop never ends; otherwise it is the yields with
  either the exception that ended the generator or the graph at its normal end.
\<close>

partial_function (option) dfs_loop ::
  "nat \<Rightarrow> decision \<Rightarrow> graph \<Rightarrow> path list \<Rightarrow> (path \<times> graph) list \<Rightarrow>
     ((path \<times> graph) list \<times> (error + graph)) option"
where
  "dfs_loop limit yield_abort_if g to_visit out =
     (if to_visit = [] then Some (out, Inr g)
      else
        let n = last to_visit; to_visit = butlast to_visit in
        case yield_abort_if g n of
          Inl e \<Rightarrow> Some (out, Inl e)
        | Inr ((should_yield, should_abort), g) \<Rightarrow>
            let out = (if should_yield then out @ [(n, g)] else out) in
            if should_abort then
              (case node_descendants limit g n of
                 Inl e \<Rightarrow> Some (out, Inl e)
               | Inr (_, g) \<Rightarrow> dfs_loop limit yield_abort_if g to_visit out)
            else if \<not> has_node g n then Some (out, Inl NetworkXError)
            else dfs_loop limit yield_abort_if g
                   (to_visit @ rev (sort (successors g n))) out)"

declare dfs_loop.simps [code]

definition dfs ::
  "nat \<Rightarrow> graph \<Rightarrow> path \<Rightarrow> decision \<Rightarrow> ((path \<times> graph) list \<times> (error + graph)) option" where
  "dfs limit g n yield_abort_if =
     (case node_descendants limit g n of
        Inl e \<Rightarrow> Some ([], Inl e)
      | Inr (_, g) \<Rightarrow> dfs_loop limit yield_abort_if g [n] [])"

section \<open>The selection: \<^verbatim>\<open>yield_zips\<close>\<close>

text \<open>The double \<^verbatim>\<open>desc / (size / 1024 ** 4)\<close>, operand by operand.\<close>

definition density :: "int \<Rightarrow> int \<Rightarrow> error + pyfloat" where
  "density desc sz =
     (case int_truediv sz (1024 ^ 4) of
        Inl e \<Rightarrow> Inl e
      | Inr x \<Rightarrow>
          (case int_to_float desc of
             Inl e \<Rightarrow> Inl e
           | Inr d \<Rightarrow> float_div d x))"

text \<open>
  The closure \<^verbatim>\<open>yield_abort_if\<close> of \<^verbatim>\<open>yield_zips\<close>; \<^verbatim>\<open>or\<close> evaluates the density
  only when \<^verbatim>\<open>to_yield\<close> is false. \<^verbatim>\<open>max_files_per_TiB\<close> is an \<^verbatim>\<open>int\<close> or a finite
  float, a rational either way.
\<close>

definition yield_abort_if :: "nat \<Rightarrow> int \<Rightarrow> rat \<Rightarrow> decision" where
  "yield_abort_if limit max_zip_bytes max_files_per_TiB g n =
     (case size_descendants limit g n of
        Inl e \<Rightarrow> Inl e
      | Inr ((sz, desc), g) \<Rightarrow>
          let to_yield = sz < max_zip_bytes in
          if to_yield then Inr ((to_yield, True), g)
          else
            (case density desc sz of
               Inl e \<Rightarrow> Inl e
             | Inr dens \<Rightarrow> Inr ((to_yield, float_lt dens max_files_per_TiB), g)))"

text \<open>
  The body of the \<^verbatim>\<open>for\<close> loop of \<^verbatim>\<open>yield_zips\<close>, run on each yield of \<^verbatim>\<open>dfs\<close>:
  it reads the attributes of the node and passes the node on.
\<close>

fun tally ::
  "(path \<times> graph) list \<Rightarrow> path list \<Rightarrow> int \<Rightarrow> int \<Rightarrow> int \<Rightarrow> path list \<times> (error + int \<times> int \<times> int)"
where
  "tally [] yielded archived_inode_count archive_count archived_size =
     (yielded, Inr (archived_inode_count, archive_count, archived_size))"
| "tally ((n, g) # ys) yielded archived_inode_count archive_count archived_size =
     (case map_of (node g) n of
        None \<Rightarrow> (yielded, Inl KeyError)
      | Some d \<Rightarrow>
          (case attr_descendants d of
             None \<Rightarrow> (yielded, Inl KeyError)
           | Some desc \<Rightarrow>
               (case attr_size d of
                  None \<Rightarrow> (yielded, Inl KeyError)
                | Some sz \<Rightarrow>
                    tally ys (yielded @ [n]) (archived_inode_count + desc) (archive_count + 1)
                      (archived_size + sz))))"

text \<open>
  The statistics after the loop: \<^verbatim>\<open>final_per_TiB\<close> divides by the stored
  \<^verbatim>\<open>total_size\<close>, which raises \<^verbatim>\<open>ZeroDivisionError\<close> when that is \<open>0\<close>.
\<close>

definition final_per_TiB :: "graph \<Rightarrow> int \<Rightarrow> int \<Rightarrow> error + rat" where
  "final_per_TiB g archived_inode_count archive_count =
     (case graph_total_descendants g of
        None \<Rightarrow> Inl KeyError
      | Some total_descendants \<Rightarrow>
          (case graph_total_size g of
             None \<Rightarrow> Inl KeyError
           | Some total_size \<Rightarrow>
               int_truediv (total_descendants - archived_inode_count + archive_count) total_size))"

text \<open>
  \<^verbatim>\<open>yield_zips\<close>: the nodes it yields, with the exception that ends it or the graph at
  its normal end.
\<close>

definition yield_zips ::
  "nat \<Rightarrow> graph \<Rightarrow> int \<Rightarrow> rat \<Rightarrow> (path list \<times> (error + graph)) option" where
  "yield_zips limit g max_zip_bytes max_files_per_TiB =
     (case dfs limit g ROOT (yield_abort_if limit max_zip_bytes max_files_per_TiB) of
        None \<Rightarrow> None
      | Some (ys, ending) \<Rightarrow>
          (case tally ys [] 0 0 0 of
             (yielded, Inl e) \<Rightarrow> Some (yielded, Inl e)
           | (yielded, Inr (archived_inode_count, archive_count, archived_size)) \<Rightarrow>
               (case ending of
                  Inl e \<Rightarrow> Some (yielded, Inl e)
                | Inr g \<Rightarrow>
                    (case final_per_TiB g archived_inode_count archive_count of
                       Inl e \<Rightarrow> Some (yielded, Inl e)
                     | Inr x \<Rightarrow> Some (yielded, Inr g)))))"

text \<open>
  The nodes that the traversal of \<^verbatim>\<open>yield_zips\<close> visits: what \<^verbatim>\<open>dfs\<close> yields when the
  decision is made to yield at every node and to abort as before.
\<close>

definition visit_all :: "decision \<Rightarrow> decision" where
  "visit_all yai g n =
     (case yai g n of
        Inl e \<Rightarrow> Inl e
      | Inr ((should_yield, should_abort), g) \<Rightarrow> Inr ((True, should_abort), g))"

definition visited ::
  "nat \<Rightarrow> graph \<Rightarrow> int \<Rightarrow> rat \<Rightarrow> (path list \<times> (error + graph)) option" where
  "visited limit g max_zip_bytes max_files_per_TiB =
     (case dfs limit g ROOT (visit_all (yield_abort_if limit max_zip_bytes max_files_per_TiB)) of
        None \<Rightarrow> None
      | Some (ys, ending) \<Rightarrow> Some (map fst ys, ending))"

section \<open>Notions for the properties\<close>

definition keys :: "graph \<Rightarrow> path list" where
  "keys g = map fst (node g)"

text \<open>The edges of the graph, and a path without an anchor.\<close>

definition edges :: "graph \<Rightarrow> (path \<times> path) set" where
  "edges g = {(u, v). v \<in> set (adj g u)}"

definition relative :: "path \<Rightarrow> bool" where
  "relative p = (p = [] \<or> \<not> is_anchor (hd p))"

text \<open>The nodes that a list of record paths gives: the paths and all their ancestors.\<close>

definition nodes_of :: "path list \<Rightarrow> path set" where
  "nodes_of ps = (\<Union>p \<in> set ps. set (p # parents p))"

text \<open>
  No path of the list is an earlier path of the list or an ancestor of one: every
  record is a new node when it is read.
\<close>

fun each_path_new :: "path list \<Rightarrow> bool" where
  "each_path_new [] = True"
| "each_path_new (p # ps) = ((\<forall>q \<in> set ps. q \<notin> set (p # parents p)) \<and> each_path_new ps)"

text \<open>
  The shape of a graph under construction: edges join nodes, each from the path
  without its last part to the path, without repetition; a node is \<open>linked\<close> when
  the edge from its parent is there.
\<close>

definition edges_ok :: "graph \<Rightarrow> bool" where
  "edges_ok g \<longleftrightarrow>
     distinct (keys g) \<and>
     (\<forall>u v. v \<in> set (adj g u) \<longrightarrow>
        has_node g u \<and> has_node g v \<and> parents v \<noteq> [] \<and> u = butlast v) \<and>
     (\<forall>u. distinct (adj g u))"

definition linked :: "graph \<Rightarrow> path \<Rightarrow> bool" where
  "linked g v \<longleftrightarrow> (parents v \<noteq> [] \<longrightarrow> v \<in> set (adj g (butlast v)))"

definition wf_tree :: "graph \<Rightarrow> bool" where
  "wf_tree g \<longleftrightarrow> edges_ok g \<and> (\<forall>v. has_node g v \<longrightarrow> linked g v)"

text \<open>
  The attributes after the build: a node that is a record of the manifest carries the
  size of its last record and \<open>0\<close> descendants, any other node carries no attribute and
  has a successor.
\<close>

definition record_data :: "int option \<Rightarrow> node_data" where
  "record_data r = (case r of None \<Rightarrow> \<lparr>attr_size = None, attr_descendants = None\<rparr>
                     | Some s \<Rightarrow> \<lparr>attr_size = Some s, attr_descendants = Some 0\<rparr>)"

definition data_ok :: "(path \<rightharpoonup> int) \<Rightarrow> graph \<Rightarrow> bool" where
  "data_ok M g \<longleftrightarrow>
     (\<forall>n. has_node g n \<longrightarrow> map_of (node g) n = Some (record_data (M n))) \<and>
     (\<forall>n. M n \<noteq> None \<longrightarrow> has_node g n) \<and>
     (\<forall>n. has_node g n \<and> M n = None \<longrightarrow> adj g n \<noteq> [])"

section \<open>Notions for the aggregates and the traversal\<close>

text \<open>
  \<open>under a n\<close>: the path \<open>a\<close> is \<open>n\<close> or an ancestor of \<open>n\<close>, that is, \<open>n\<close> lies in
  the subtree of \<open>a\<close>. \<open>deep_enough k g n\<close>: a recursion of depth \<open>k\<close> from \<open>n\<close>
  reaches every node below \<open>n\<close>.
\<close>

definition under :: "path \<Rightarrow> path \<Rightarrow> bool" where
  "under a n \<longleftrightarrow> a \<in> set (n # parents n)"

definition deep_enough :: "nat \<Rightarrow> graph \<Rightarrow> path \<Rightarrow> bool" where
  "deep_enough k g n \<longleftrightarrow> (\<forall>m. has_node g m \<and> under n m \<longrightarrow> length m < k + length n)"

text \<open>
  The value that \<^verbatim>\<open>size_descendants\<close> computes from the attributes as they are, with no
  caching: the same recursion without the graph passed through.
\<close>

fun agg :: "nat \<Rightarrow> graph \<Rightarrow> path \<Rightarrow> error + (int \<times> int)"
  and agg_children :: "nat \<Rightarrow> graph \<Rightarrow> path list \<Rightarrow> int \<Rightarrow> int \<Rightarrow> error + (int \<times> int)"
where
  "agg 0 g n = Inl RecursionError"
| "agg (Suc k) g n =
     (case map_of (node g) n of
        None \<Rightarrow> Inl KeyError
      | Some data \<Rightarrow>
          let s = attr_size data; d = attr_descendants data in
          if d = None \<or> s = None \<or> s = Some 0 then
            agg_children k g (successors g n)
              (case s of None \<Rightarrow> 0 | Some x \<Rightarrow> x) (case d of None \<Rightarrow> 0 | Some x \<Rightarrow> x)
          else Inr (the s, the d))"
| "agg_children k g [] s d = Inr (s, d)"
| "agg_children k g (c # cs) s d =
     (case agg k g c of
        Inl e \<Rightarrow> Inl e
      | Inr (c_s, c_d) \<Rightarrow> agg_children k g cs (s + c_s) (d + (1 + c_d)))"

definition aggv :: "nat \<Rightarrow> graph \<Rightarrow> path \<Rightarrow> int \<times> int" where
  "aggv L g n = (case agg L g n of Inl e \<Rightarrow> (0, 0) | Inr v \<Rightarrow> v)"

definition recompute :: "node_data \<Rightarrow> bool" where
  "recompute data \<longleftrightarrow>
     attr_descendants data = None \<or> attr_size data = None \<or> attr_size data = Some 0"

definition start_s :: "node_data \<Rightarrow> int" where
  "start_s data = (case attr_size data of None \<Rightarrow> 0 | Some x \<Rightarrow> x)"

definition start_d :: "node_data \<Rightarrow> int" where
  "start_d data = (case attr_descendants data of None \<Rightarrow> 0 | Some x \<Rightarrow> x)"

text \<open>
  States of the cache, relative to the graph \<open>g0\<close> as built. A node is \<open>exact\<close> when it
  caches its aggregate; \<open>fresh_below\<close> when nothing at or below it was touched yet;
  \<open>settled\<close> when it caches its aggregate size and, unless that size is \<open>0\<close> and the node
  has successors, its aggregate descendants.
\<close>

definition exact :: "nat \<Rightarrow> graph \<Rightarrow> graph \<Rightarrow> path \<Rightarrow> bool" where
  "exact L g0 g m \<longleftrightarrow>
     map_of (node g) m =
       Some \<lparr>attr_size = Some (fst (aggv L g0 m)), attr_descendants = Some (snd (aggv L g0 m))\<rparr>"

definition fresh_below :: "graph \<Rightarrow> graph \<Rightarrow> path \<Rightarrow> bool" where
  "fresh_below g0 g m \<longleftrightarrow> (\<forall>x. under m x \<longrightarrow> map_of (node g) x = map_of (node g0) x)"

definition settled :: "nat \<Rightarrow> graph \<Rightarrow> graph \<Rightarrow> path \<Rightarrow> bool" where
  "settled L g0 g m \<longleftrightarrow>
     (\<exists>d. map_of (node g) m =
            Some \<lparr>attr_size = Some (fst (aggv L g0 m)), attr_descendants = Some d\<rparr> \<and>
          (fst (aggv L g0 m) \<noteq> 0 \<or> adj g0 m = [] \<longrightarrow> d = snd (aggv L g0 m)))"

definition st_ok :: "nat \<Rightarrow> graph \<Rightarrow> graph \<Rightarrow> bool" where
  "st_ok L g0 g \<longleftrightarrow>
     adj g = adj g0 \<and> keys g = keys g0 \<and>
     (\<forall>m. has_node g0 m \<longrightarrow> settled L g0 g m \<or> fresh_below g0 g m)"

definition attrs_paired :: "graph \<Rightarrow> bool" where
  "attrs_paired g \<longleftrightarrow>
     (\<forall>n data. map_of (node g) n = Some data \<longrightarrow>
        (attr_size data = None) = (attr_descendants data = None))"

text \<open>The pair that a call of \<^verbatim>\<open>size_descendants\<close> returns.\<close>

definition sd_pair :: "nat \<Rightarrow> graph \<Rightarrow> path \<Rightarrow> int \<times> int" where
  "sd_pair limit g n = (case size_descendants limit g n of Inl e \<Rightarrow> (0, 0) | Inr (v, g') \<Rightarrow> v)"

text \<open>
  The decision at a node from its aggregate on the tree as built, and the preorder
  walk that the decisions give: a node is listed when the first flag holds, and its
  successors are walked in ascending order unless the second holds.
\<close>

definition low_density :: "rat \<Rightarrow> int \<Rightarrow> int \<Rightarrow> bool" where
  "low_density max_files_per_TiB desc sz =
     (case density desc sz of Inl e \<Rightarrow> False | Inr dens \<Rightarrow> float_lt dens max_files_per_TiB)"

definition decide :: "nat \<Rightarrow> graph \<Rightarrow> int \<Rightarrow> rat \<Rightarrow> path \<Rightarrow> bool \<times> bool" where
  "decide L g0 max_zip_bytes max_files_per_TiB n =
     (fst (aggv L g0 n) < max_zip_bytes,
      fst (aggv L g0 n) < max_zip_bytes \<or>
        low_density max_files_per_TiB (snd (aggv L g0 n)) (fst (aggv L g0 n)))"

fun walk :: "(path \<Rightarrow> bool \<times> bool) \<Rightarrow> graph \<Rightarrow> nat \<Rightarrow> path \<Rightarrow> path list" where
  "walk dec g 0 n = []"
| "walk dec g (Suc k) n =
     (if fst (dec n) then [n] else []) @
     (if snd (dec n) then [] else concat (map (walk dec g k) (sort (successors g n))))"

text \<open>
  What a part of the stack contributes to the run: yields \<open>ys\<close> whose nodes are
  \<open>nodes\<close>, each with a graph in which the node is settled.
\<close>

definition run_of ::
  "nat \<Rightarrow> graph \<Rightarrow> nat \<Rightarrow> decision \<Rightarrow> graph \<Rightarrow> path list \<Rightarrow> path list \<Rightarrow> bool" where
  "run_of L g0 limit yai g stack nodes \<longleftrightarrow>
     (\<exists>g' ys. st_ok L g0 g' \<and> (\<forall>m. settled L g0 g m \<longrightarrow> settled L g0 g' m) \<and>
        map fst ys = nodes \<and> (\<forall>n gs. (n, gs) \<in> set ys \<longrightarrow> settled L g0 gs n) \<and>
        (\<forall>rest out. dfs_loop limit yai g (rest @ stack) out =
           dfs_loop limit yai g' rest (out @ ys)))"


text \<open>
  The division of \<open>yield_abort_if\<close> is defined at every node that is too big to be
  yielded: the condition under which no decision of a run raises.
\<close>

definition densities_defined :: "nat \<Rightarrow> graph \<Rightarrow> int \<Rightarrow> bool" where
  "densities_defined limit g max_zip_bytes =
     list_all (\<lambda>n. case sd_pair limit g n of
                  (sz, desc) \<Rightarrow> if sz < max_zip_bytes then True
                    else (case density desc sz of Inl e \<Rightarrow> False | Inr x \<Rightarrow> True))
       (keys g)"

text \<open>
  The two halves of the decision of \<open>yield_abort_if\<close>, read from the aggregate of a
  node: \<open>to_yield\<close> and \<open>to_abort\<close>.
\<close>

definition yields :: "nat \<Rightarrow> graph \<Rightarrow> int \<Rightarrow> path \<Rightarrow> bool" where
  "yields limit g max_zip_bytes n = (fst (sd_pair limit g n) < max_zip_bytes)"

definition aborts :: "nat \<Rightarrow> graph \<Rightarrow> int \<Rightarrow> rat \<Rightarrow> path \<Rightarrow> bool" where
  "aborts limit g max_zip_bytes max_files_per_TiB n =
     (case sd_pair limit g n of
        (sz, desc) \<Rightarrow> sz < max_zip_bytes \<or> low_density max_files_per_TiB desc sz)"

section \<open>Properties of paths and of the graph operations\<close>


subsection \<open>Paths\<close>

lemma parents_Nil_iff: "parents p = [] \<longleftrightarrow> p = [] \<or> (length p = 1 \<and> is_anchor (hd p))"
  by (subst parents.simps) simp

lemma parents_Cons: "parents p \<noteq> [] \<Longrightarrow> parents p = butlast p # parents (butlast p)"
  by (subst parents.simps) (simp add: parents_Nil_iff)

lemma parents_nonempty: "parents p \<noteq> [] \<Longrightarrow> p \<noteq> []"
  by (auto simp: parents_Nil_iff)

lemma parents_shorter: "q \<in> set (parents p) \<Longrightarrow> length q < length p"
proof (induction p arbitrary: q rule: parents.induct)
  case (1 p)
  show ?case
  proof (cases "parents p = []")
    case True
    with "1.prems" show ?thesis by simp
  next
    case False
    then have eq: "parents p = butlast p # parents (butlast p)" by (rule parents_Cons)
    from False have ne: "p \<noteq> []" by (rule parents_nonempty)
    from False have c: "\<not> (p = [] \<or> length p = 1 \<and> is_anchor (hd p))"
      by (simp add: parents_Nil_iff)
    from "1.prems" eq have "q = butlast p \<or> q \<in> set (parents (butlast p))" by simp
    then show ?thesis
    proof
      assume "q = butlast p"
      with ne show ?thesis by simp
    next
      assume "q \<in> set (parents (butlast p))"
      from "1.IH"[OF c this] ne show ?thesis by simp
    qed
  qed
qed

lemma parents_closed: "q \<in> set (parents p) \<Longrightarrow> set (parents q) \<subseteq> set (parents p)"
proof (induction p arbitrary: q rule: parents.induct)
  case (1 p)
  show ?case
  proof (cases "parents p = []")
    case True
    with "1.prems" show ?thesis by simp
  next
    case False
    then have eq: "parents p = butlast p # parents (butlast p)" by (rule parents_Cons)
    from False have c: "\<not> (p = [] \<or> length p = 1 \<and> is_anchor (hd p))"
      by (simp add: parents_Nil_iff)
    from "1.prems" eq have "q = butlast p \<or> q \<in> set (parents (butlast p))" by simp
    then show ?thesis
    proof
      assume "q = butlast p"
      with eq show ?thesis by auto
    next
      assume "q \<in> set (parents (butlast p))"
      from "1.IH"[OF c this] eq show ?thesis by auto
    qed
  qed
qed

subsection \<open>Graph operations\<close>

lemma has_node_iff: "has_node g n \<longleftrightarrow> n \<in> set (keys g)"
  by (simp add: has_node_def map_of_eq_None_iff keys_def)

lemma keys_ensure_node:
  "keys (ensure_node n g) = (if has_node g n then keys g else keys g @ [n])"
  by (simp add: ensure_node_def keys_def)

lemma keys_add_node:
  "keys (add_node n s d g) = (if has_node g n then keys g else keys g @ [n])"
  by (simp add: add_node_def keys_def update_keys has_node_iff)

lemma keys_add_edge:
  "keys (add_edge u v g) = keys (ensure_node v (ensure_node u g))"
  by (simp add: add_edge_def Let_def keys_def)

lemma adj_ensure_node [simp]: "adj (ensure_node n g) = adj g"
  by (simp add: ensure_node_def)

lemma adj_add_node [simp]: "adj (add_node n s d g) = adj g"
  by (simp add: add_node_def)

lemma adj_add_edge:
  "adj (add_edge u v g) = (adj g)(u := (if v \<in> set (adj g u) then adj g u else adj g u @ [v]))"
  by (simp add: add_edge_def Let_def)

lemma has_node_ensure_node [simp]: "has_node (ensure_node n g) m \<longleftrightarrow> m = n \<or> has_node g m"
  by (auto simp: has_node_iff keys_ensure_node)

lemma has_node_add_node [simp]: "has_node (add_node n s d g) m \<longleftrightarrow> m = n \<or> has_node g m"
  by (auto simp: has_node_iff keys_add_node)

lemma has_node_add_edge [simp]:
  "has_node (add_edge u v g) m \<longleftrightarrow> m = u \<or> m = v \<or> has_node g m"
  by (auto simp: has_node_iff keys_add_edge keys_ensure_node)

lemma distinct_keys_ensure_node:
  "distinct (keys g) \<Longrightarrow> distinct (keys (ensure_node n g))"
  by (simp add: keys_ensure_node has_node_iff)

lemma distinct_keys_add_node:
  "distinct (keys g) \<Longrightarrow> distinct (keys (add_node n s d g))"
  by (simp add: keys_add_node has_node_iff)

lemma distinct_keys_add_edge:
  "distinct (keys g) \<Longrightarrow> distinct (keys (add_edge u v g))"
  by (simp add: keys_add_edge distinct_keys_ensure_node)

lemma length_keys_add_edge:
  "has_node g v \<Longrightarrow> length (keys (add_edge u v g)) =
     (if has_node g u then length (keys g) else Suc (length (keys g)))"
  by (simp add: keys_add_edge keys_ensure_node)
section \<open>The build phase\<close>


lemma edges_okD:
  "edges_ok g \<Longrightarrow> v \<in> set (adj g u) \<Longrightarrow>
     has_node g u \<and> has_node g v \<and> parents v \<noteq> [] \<and> u = butlast v"
  unfolding edges_ok_def by blast

lemma edges_ok_add_node: "edges_ok g \<Longrightarrow> edges_ok (add_node n s d g)"
  by (auto simp: edges_ok_def distinct_keys_add_node)

lemma linked_add_node [simp]: "linked (add_node n s d g) v = linked g v"
  by (simp add: linked_def)

lemma edges_ok_add_edge:
  assumes "edges_ok g" "parents c \<noteq> []"
  shows "edges_ok (add_edge (butlast c) c g)"
proof -
  from assms(1) have d: "distinct (keys g)"
    and e: "\<And>u v. v \<in> set (adj g u) \<Longrightarrow>
        has_node g u \<and> has_node g v \<and> parents v \<noteq> [] \<and> u = butlast v"
    and a: "\<And>u. distinct (adj g u)" by (simp_all add: edges_ok_def)
  let ?g1 = "add_edge (butlast c) c g"
  have "distinct (keys ?g1)" using d by (rule distinct_keys_add_edge)
  moreover have "has_node ?g1 u \<and> has_node ?g1 v \<and> parents v \<noteq> [] \<and> u = butlast v"
    if "v \<in> set (adj ?g1 u)" for u v
  proof (cases "v \<in> set (adj g u)")
    case True
    from e[OF this] show ?thesis by auto
  next
    case False
    with that have "u = butlast c \<and> v = c"
      by (auto simp: adj_add_edge split: if_splits)
    with assms(2) show ?thesis by simp
  qed
  moreover have "distinct (adj ?g1 u)" for u
    using a[of u] a[of "butlast c"] by (auto simp: adj_add_edge)
  ultimately show ?thesis unfolding edges_ok_def by blast
qed

lemma linked_add_edge_mono: "linked g v \<Longrightarrow> linked (add_edge u c g) v"
  by (auto simp: linked_def adj_add_edge)

lemma linked_add_edge_self: "linked (add_edge (butlast c) c g) c"
  by (auto simp: linked_def adj_add_edge)

lemma ancestors_present:
  assumes ok: "edges_ok g" and l: "\<forall>v. has_node g v \<and> length v < k \<longrightarrow> linked g v"
  shows "has_node g p \<Longrightarrow> length p < k \<Longrightarrow> q \<in> set (parents p) \<Longrightarrow> has_node g q"
proof (induction p arbitrary: q rule: parents.induct)
  case (1 p)
  from "1.prems"(3) have ne: "parents p \<noteq> []" by auto
  then have eq: "parents p = butlast p # parents (butlast p)" by (rule parents_Cons)
  from ne have c: "\<not> (p = [] \<or> length p = 1 \<and> is_anchor (hd p))"
    by (simp add: parents_Nil_iff)
  from l "1.prems"(1,2) have "linked g p" by blast
  with ne have "p \<in> set (adj g (butlast p))" by (simp add: linked_def)
  from edges_okD[OF ok this] have hb: "has_node g (butlast p)" by blast
  from "1.prems"(2) have lb: "length (butlast p) < k" by simp
  from "1.prems"(3) eq have "q = butlast p \<or> q \<in> set (parents (butlast p))" by simp
  then show ?case
  proof
    assume "q = butlast p" with hb show ?thesis by simp
  next
    assume "q \<in> set (parents (butlast p))"
    from "1.IH"[OF c hb lb this] show ?thesis .
  qed
qed

lemma link_parents_inv:
  "edges_ok g \<Longrightarrow> has_node g c \<Longrightarrow> \<forall>v. has_node g v \<and> v \<noteq> c \<longrightarrow> linked g v \<Longrightarrow>
   wf_tree (fst (link_parents (parents c) c (g, td))) \<and>
   set (keys (fst (link_parents (parents c) c (g, td)))) = set (keys g) \<union> set (parents c)"
proof (induction c arbitrary: g td rule: parents.induct)
  case (1 c)
  show ?case
  proof (cases "parents c = []")
    case True
    with "1.prems" show ?thesis by (auto simp: wf_tree_def linked_def)
  next
    case False
    then have eq: "parents c = butlast c # parents (butlast c)" by (rule parents_Cons)
    from False have cnd: "\<not> (c = [] \<or> length c = 1 \<and> is_anchor (hd c))"
      by (simp add: parents_Nil_iff)
    from False have cne: "c \<noteq> []" by (rule parents_nonempty)
    let ?p = "butlast c"
    let ?g1 = "add_edge ?p c g"
    have pc: "?p \<noteq> c"
      using cne by (cases c rule: rev_cases) auto
    have ok1: "edges_ok ?g1" using "1.prems"(1) False by (rule edges_ok_add_edge)
    have l1: "\<forall>v. has_node ?g1 v \<and> v \<noteq> ?p \<longrightarrow> linked ?g1 v"
    proof (intro allI impI)
      fix v assume v: "has_node ?g1 v \<and> v \<noteq> ?p"
      show "linked ?g1 v"
      proof (cases "v = c")
        case True then show ?thesis by (simp add: linked_add_edge_self)
      next
        case False
        with v have "has_node g v" by auto
        with False "1.prems"(3) have "linked g v" by blast
        then show ?thesis by (rule linked_add_edge_mono)
      qed
    qed
    show ?thesis
    proof (cases "has_node g ?p")
      case True
      from True pc "1.prems"(3) have "linked g ?p" by blast
      then have "linked ?g1 ?p" by (rule linked_add_edge_mono)
      with l1 have "\<forall>v. has_node ?g1 v \<longrightarrow> linked ?g1 v" by blast
      with ok1 have wf: "wf_tree ?g1" unfolding wf_tree_def by (rule conjI)
      have lk: "\<forall>v. has_node g v \<and> length v < length c \<longrightarrow> linked g v"
        using "1.prems"(3) by auto
      have "\<And>q. q \<in> set (parents ?p) \<Longrightarrow> has_node g q"
        using ancestors_present[OF "1.prems"(1) lk True] cne by simp
      then have sub: "set (parents c) \<subseteq> set (keys g)"
        using eq True by (auto simp: has_node_iff)
      have "set (keys ?g1) = set (keys g)"
        using True "1.prems"(2) by (auto simp: keys_add_edge keys_ensure_node)
      with wf sub eq True show ?thesis by (auto simp: Let_def)
    next
      case hp: False
      have hn1: "has_node ?g1 ?p" by simp
      from "1.IH"[OF cnd ok1 hn1 l1, of "td + 1"]
      have wf: "wf_tree (fst (link_parents (parents ?p) ?p (?g1, td + 1)))"
        and ks: "set (keys (fst (link_parents (parents ?p) ?p (?g1, td + 1)))) =
                 set (keys ?g1) \<union> set (parents ?p)" by simp_all
      have k1: "set (keys ?g1) = insert ?p (set (keys g))"
        using hp "1.prems"(2) by (auto simp: keys_add_edge keys_ensure_node)
      have res: "link_parents (parents c) c (g, td) = link_parents (parents ?p) ?p (?g1, td + 1)"
        using hp by (subst eq) (simp add: Let_def)
      show ?thesis unfolding res using wf ks k1 eq by auto
    qed
  qed
qed

lemma link_parents_count:
  "has_node g c \<Longrightarrow>
   snd (link_parents ps c (g, td)) =
     td + int (length (keys (fst (link_parents ps c (g, td))))) - int (length (keys g))"
proof (induction ps arbitrary: c g td)
  case Nil
  then show ?case by simp
next
  case (Cons p ps)
  show ?case
  proof (cases "has_node g p")
    case True
    then have step: "link_parents (p # ps) c (g, td) = (add_edge p c g, td)"
      by (simp add: Let_def)
    have "length (keys (add_edge p c g)) = length (keys g)"
      using True Cons.prems by (simp add: length_keys_add_edge)
    then show ?thesis unfolding step by simp
  next
    case False
    then have step: "link_parents (p # ps) c (g, td) = link_parents ps p (add_edge p c g, td + 1)"
      by (simp add: Let_def)
    have len: "int (length (keys (add_edge p c g))) = int (length (keys g)) + 1"
      using False Cons.prems by (simp add: length_keys_add_edge)
    have "has_node (add_edge p c g) p" by simp
    from Cons.IH[OF this, of "td + 1"] len
    show ?thesis unfolding step by linarith
  qed
qed


lemma map_of_add_node:
  "map_of (node (add_node n s d g)) =
     (map_of (node g))(n \<mapsto> \<lparr>attr_size = Some s, attr_descendants = Some d\<rparr>)"
  by (simp add: add_node_def update_conv')

lemma map_of_ensure_node:
  "map_of (node (ensure_node n g)) m =
     (if m = n \<and> \<not> has_node g n then Some \<lparr>attr_size = None, attr_descendants = None\<rparr>
      else map_of (node g) m)"
  by (auto simp: ensure_node_def has_node_def map_add_def split: option.splits)

lemma map_of_add_edge:
  "has_node g v \<Longrightarrow> map_of (node (add_edge u v g)) m =
     (if m = u \<and> \<not> has_node g u then Some \<lparr>attr_size = None, attr_descendants = None\<rparr>
      else map_of (node g) m)"
  by (simp add: add_edge_def Let_def map_of_ensure_node)

lemma data_ok_add_node:
  assumes "data_ok M g"
  shows "data_ok (M(n \<mapsto> s)) (add_node n s 0 g)"
proof -
  from assms have a: "\<And>m. has_node g m \<Longrightarrow> map_of (node g) m = Some (record_data (M m))"
    and b: "\<And>m. M m \<noteq> None \<Longrightarrow> has_node g m"
    and c: "\<And>m. has_node g m \<Longrightarrow> M m = None \<Longrightarrow> adj g m \<noteq> []"
    unfolding data_ok_def by blast+
  show ?thesis unfolding data_ok_def
  proof (intro conjI allI impI)
    fix m assume "has_node (add_node n s 0 g) m"
    then show "map_of (node (add_node n s 0 g)) m = Some (record_data ((M(n \<mapsto> s)) m))"
      using a[of m] by (auto simp: map_of_add_node record_data_def)
  next
    fix m assume "(M(n \<mapsto> s)) m \<noteq> None"
    then show "has_node (add_node n s 0 g) m" using b[of m] by (auto split: if_splits)
  next
    fix m assume "has_node (add_node n s 0 g) m \<and> (M(n \<mapsto> s)) m = None"
    then show "adj (add_node n s 0 g) m \<noteq> []" using c[of m] by (auto split: if_splits)
  qed
qed

lemma data_ok_add_edge:
  assumes "data_ok M g" "has_node g c"
  shows "data_ok M (add_edge u c g)"
proof -
  from assms have a: "\<And>m. has_node g m \<Longrightarrow> map_of (node g) m = Some (record_data (M m))"
    and b: "\<And>m. M m \<noteq> None \<Longrightarrow> has_node g m"
    and c: "\<And>m. has_node g m \<Longrightarrow> M m = None \<Longrightarrow> adj g m \<noteq> []"
    unfolding data_ok_def by blast+
  show ?thesis unfolding data_ok_def
  proof (intro conjI allI impI)
    fix m assume h: "has_node (add_edge u c g) m"
    show "map_of (node (add_edge u c g)) m = Some (record_data (M m))"
    proof (cases "m = u \<and> \<not> has_node g u")
      case True
      with b[of u] have "M m = None" by blast
      with True assms(2) show ?thesis by (simp add: map_of_add_edge record_data_def)
    next
      case False
      with h assms(2) have "has_node g m" by auto
      from a[OF this] False assms(2) show ?thesis by (auto simp: map_of_add_edge)
    qed
  next
    fix m assume "M m \<noteq> None"
    from b[OF this] show "has_node (add_edge u c g) m" by simp
  next
    fix m assume h: "has_node (add_edge u c g) m \<and> M m = None"
    show "adj (add_edge u c g) m \<noteq> []"
    proof (cases "m = u")
      case True
      then show ?thesis by (auto simp: adj_add_edge)
    next
      case False
      with h assms(2) have "has_node g m" by auto
      from c[OF this] h False show ?thesis by (auto simp: adj_add_edge)
    qed
  qed
qed

lemma link_parents_data:
  "data_ok M g \<Longrightarrow> has_node g c \<Longrightarrow> data_ok M (fst (link_parents ps c (g, td)))"
proof (induction ps arbitrary: c g td)
  case Nil
  then show ?case by simp
next
  case (Cons p ps)
  have d1: "data_ok M (add_edge p c g)" using Cons.prems by (rule data_ok_add_edge)
  show ?case
  proof (cases "has_node g p")
    case True
    with d1 show ?thesis by (simp add: Let_def)
  next
    case False
    have "has_node (add_edge p c g) p" by simp
    from Cons.IH[OF d1 this] False show ?thesis by (simp add: Let_def)
  qed
qed

lemma add_lines_Cons:
  "add_lines ((p, s) # lines) (g, ts, td) =
     add_lines lines
       (fst (link_parents (parents p) p (add_node p s 0 g, td + 1)), ts + s,
        snd (link_parents (parents p) p (add_node p s 0 g, td + 1)))"
  by (simp add: Let_def split_beta)

lemma add_lines_inv:
  "wf_tree g \<Longrightarrow> data_ok M g \<Longrightarrow>
   wf_tree (fst (add_lines lines (g, ts, td))) \<and>
   data_ok (M ++ map_of (rev lines)) (fst (add_lines lines (g, ts, td))) \<and>
   set (keys (fst (add_lines lines (g, ts, td)))) = set (keys g) \<union> nodes_of (map fst lines) \<and>
   fst (snd (add_lines lines (g, ts, td))) = ts + sum_list (map snd lines)"
proof (induction lines arbitrary: g M ts td)
  case Nil
  then show ?case by (simp add: nodes_of_def)
next
  case (Cons l lines)
  obtain p s where l: "l = (p, s)" by (cases l)
  let ?g1 = "add_node p s 0 g"
  let ?r = "link_parents (parents p) p (?g1, td + 1)"
  from Cons.prems(1) have ok: "edges_ok g" and lk: "\<And>v. has_node g v \<Longrightarrow> linked g v"
    by (simp_all add: wf_tree_def)
  have ok1: "edges_ok ?g1" using ok by (rule edges_ok_add_node)
  have hn: "has_node ?g1 p" by simp
  have l1: "\<forall>v. has_node ?g1 v \<and> v \<noteq> p \<longrightarrow> linked ?g1 v"
    using lk by auto
  from link_parents_inv[OF ok1 hn l1, of "td + 1"]
  have wf2: "wf_tree (fst ?r)" and k2: "set (keys (fst ?r)) = set (keys ?g1) \<union> set (parents p)"
    by simp_all
  have d1: "data_ok (M(p \<mapsto> s)) ?g1" using Cons.prems(2) by (rule data_ok_add_node)
  have d2: "data_ok (M(p \<mapsto> s)) (fst ?r)" using d1 hn by (rule link_parents_data)
  have k1: "set (keys ?g1) = insert p (set (keys g))"
    by (auto simp: keys_add_node has_node_iff)
  have m: "M ++ map_of (rev (l # lines)) = (M(p \<mapsto> s)) ++ map_of (rev lines)"
    by (simp add: l map_add_def fun_eq_iff split: option.splits)
  have res: "add_lines (l # lines) (g, ts, td) = add_lines lines (fst ?r, ts + s, snd ?r)"
    by (simp only: l add_lines_Cons)
  let ?f = "add_lines lines (fst ?r, ts + s, snd ?r)"
  from Cons.IH[OF wf2 d2, of "ts + s" "snd ?r"]
  have A: "wf_tree (fst ?f)"
    and B: "data_ok ((M(p \<mapsto> s)) ++ map_of (rev lines)) (fst ?f)"
    and C: "set (keys (fst ?f)) = set (keys (fst ?r)) \<union> nodes_of (map fst lines)"
    and D: "fst (snd ?f) = ts + s + sum_list (map snd lines)" by blast+
  have C': "set (keys (fst ?f)) = set (keys g) \<union> nodes_of (map fst (l # lines))"
    unfolding C k2 k1 by (auto simp: nodes_of_def l)
  have D': "fst (snd ?f) = ts + sum_list (map snd (l # lines))"
    unfolding D by (simp add: l)
  show ?case unfolding res m using A B C' D' by blast
qed


lemma add_lines_count:
  "wf_tree g \<Longrightarrow> \<forall>q \<in> set (map fst lines). \<not> has_node g q \<Longrightarrow> each_path_new (map fst lines) \<Longrightarrow>
   snd (snd (add_lines lines (g, ts, td))) =
     td + int (length (keys (fst (add_lines lines (g, ts, td))))) - int (length (keys g))"
proof (induction lines arbitrary: g ts td)
  case Nil
  then show ?case by simp
next
  case (Cons l lines)
  obtain p s where l: "l = (p, s)" by (cases l)
  let ?g1 = "add_node p s 0 g"
  let ?r = "link_parents (parents p) p (?g1, td + 1)"
  let ?f = "add_lines lines (fst ?r, ts + s, snd ?r)"
  have res: "add_lines (l # lines) (g, ts, td) = ?f"
    by (simp only: l add_lines_Cons)
  from Cons.prems(1) have ok: "edges_ok g" and lk: "\<And>v. has_node g v \<Longrightarrow> linked g v"
    by (simp_all add: wf_tree_def)
  have ok1: "edges_ok ?g1" using ok by (rule edges_ok_add_node)
  have hn: "has_node ?g1 p" by simp
  have l1: "\<forall>v. has_node ?g1 v \<and> v \<noteq> p \<longrightarrow> linked ?g1 v"
    using lk by auto
  from link_parents_inv[OF ok1 hn l1, of "td + 1"]
  have wf2: "wf_tree (fst ?r)" and k2: "set (keys (fst ?r)) = set (keys ?g1) \<union> set (parents p)"
    by simp_all
  from Cons.prems(2) have pnew: "\<not> has_node g p" by (simp add: l)
  then have len1: "int (length (keys ?g1)) = int (length (keys g)) + 1"
    by (simp add: keys_add_node)
  have k1: "set (keys ?g1) = insert p (set (keys g))"
    using pnew by (simp add: keys_add_node)
  have cnt: "snd ?r = td + 1 + int (length (keys (fst ?r))) - int (length (keys ?g1))"
    using link_parents_count[OF hn, of "parents p" "td + 1"] by simp
  have fresh: "\<forall>q \<in> set (map fst lines). \<not> has_node (fst ?r) q"
  proof
    fix q assume q: "q \<in> set (map fst lines)"
    with Cons.prems(2) have "\<not> has_node g q" by auto
    moreover from q Cons.prems(3) have "q \<notin> set (p # parents p)" by (auto simp: l)
    ultimately show "\<not> has_node (fst ?r) q"
      by (simp add: has_node_iff k2 k1)
  qed
  from Cons.prems(3) have "each_path_new (map fst lines)" by (simp add: l)
  from Cons.IH[OF wf2 fresh this, of "ts + s" "snd ?r"] cnt len1
  show ?case unfolding res by linarith
qed

lemma wf_tree_empty: "wf_tree empty_graph"
  by (simp add: wf_tree_def edges_ok_def empty_graph_def keys_def has_node_def)

lemma data_ok_empty: "data_ok Map.empty empty_graph"
  by (simp add: data_ok_def empty_graph_def has_node_def)

lemma sizes_to_graph_eq:
  "sizes_to_graph m =
     (fst (add_lines m (empty_graph, 0, 0)))
       \<lparr>graph_total_size := Some (fst (snd (add_lines m (empty_graph, 0, 0)))),
        graph_total_descendants := Some (snd (snd (add_lines m (empty_graph, 0, 0))) - 1)\<rparr>"
  by (simp add: sizes_to_graph_def split_beta)

lemma sizes_to_graph_node:
  "node (sizes_to_graph m) = node (fst (add_lines m (empty_graph, 0, 0)))"
  "adj (sizes_to_graph m) = adj (fst (add_lines m (empty_graph, 0, 0)))"
  by (simp_all add: sizes_to_graph_eq)

lemma graph_cong:
  assumes "node g = node g'" "adj g = adj g'"
  shows "wf_tree g = wf_tree g'" "data_ok M g = data_ok M g'" "keys g = keys g'"
    "has_node g = has_node g'"
  using assms
  by (simp_all add: wf_tree_def edges_ok_def data_ok_def keys_def has_node_def linked_def fun_eq_iff)

lemma sizes_to_graph_built:
  "wf_tree (sizes_to_graph m)"
  "data_ok (map_of (rev m)) (sizes_to_graph m)"
  "set (keys (sizes_to_graph m)) = nodes_of (map fst m)"
  using add_lines_inv[OF wf_tree_empty data_ok_empty, of m 0 0]
    graph_cong(1)[OF sizes_to_graph_node] graph_cong(2)[OF sizes_to_graph_node]
    graph_cong(3)[OF sizes_to_graph_node]
  by (simp_all add: empty_graph_def keys_def)

lemma has_node_built: "has_node (sizes_to_graph m) n \<longleftrightarrow> n \<in> nodes_of (map fst m)"
  by (simp add: has_node_iff sizes_to_graph_built)

text \<open>
  Claim C7, as amended. When no record's path is an earlier record's path or an ancestor
  of one, the stored \<^verbatim>\<open>total_size\<close> is the sum of the record sizes and the stored
  \<^verbatim>\<open>total_descendants\<close> is the number of nodes (the record paths and all their
  ancestors) minus one.
\<close>

theorem totals_consistent:
  assumes "each_path_new (map fst m)"
  shows "graph_total_size (sizes_to_graph m) = Some (sum_list (map snd m)) \<and>
         graph_total_descendants (sizes_to_graph m) =
           Some (int (card {n. has_node (sizes_to_graph m) n}) - 1) \<and>
         {n. has_node (sizes_to_graph m) n} = nodes_of (map fst m)"
proof -
  let ?f = "add_lines m (empty_graph, 0, 0)"
  have ts: "fst (snd ?f) = sum_list (map snd m)"
    using add_lines_inv[OF wf_tree_empty data_ok_empty, of m 0 0] by simp
  have "\<forall>q \<in> set (map fst m). \<not> has_node empty_graph q"
    by (simp add: has_node_def empty_graph_def)
  from add_lines_count[OF wf_tree_empty this assms, of 0 0]
  have td: "snd (snd ?f) = int (length (keys (fst ?f)))"
    by (simp add: keys_def empty_graph_def)
  have k: "keys (fst ?f) = keys (sizes_to_graph m)"
    using graph_cong(3)[OF sizes_to_graph_node] by simp
  from sizes_to_graph_built(1)[of m] have "distinct (keys (sizes_to_graph m))"
    by (simp add: wf_tree_def edges_ok_def)
  then have "length (keys (sizes_to_graph m)) = card (set (keys (sizes_to_graph m)))"
    by (simp add: distinct_card)
  also have "set (keys (sizes_to_graph m)) = {n. has_node (sizes_to_graph m) n}"
    by (auto simp: has_node_iff)
  finally have len: "length (keys (sizes_to_graph m)) = card {n. has_node (sizes_to_graph m) n}" .
  have "{n. has_node (sizes_to_graph m) n} = nodes_of (map fst m)"
    by (auto simp: has_node_built)
  with ts td k len show ?thesis by (simp add: sizes_to_graph_eq)
qed

theorem totals_consistent_witness:
  "each_path_new (map fst [([''a'', ''x''], 5), ([''a'', ''y''], 7), ([''b''], 1 :: int)]) \<and>
   graph_total_size (sizes_to_graph [([''a'', ''x''], 5), ([''a'', ''y''], 7), ([''b''], 1)]) = Some 13 \<and>
   graph_total_descendants (sizes_to_graph [([''a'', ''x''], 5), ([''a'', ''y''], 7), ([''b''], 1)]) =
     Some (int (card {n. has_node (sizes_to_graph [([''a'', ''x''], 5), ([''a'', ''y''], 7), ([''b''], 1)]) n}) - 1)"
proof -
  have h: "each_path_new (map fst [([''a'', ''x''], 5), ([''a'', ''y''], 7), ([''b''], 1 :: int)])"
    by code_simp
  from totals_consistent[OF h] h show ?thesis by simp
qed

text \<open>
  Distinct record paths are not enough for C7: a directory listed after one of its files
  is counted a second time. Here the tree has three nodes and
  \<^verbatim>\<open>total_descendants\<close> is \<open>3\<close>, not \<open>2\<close>.
\<close>

theorem totals_distinct_counterexample:
  "distinct (map fst [([''a'', ''b''], 5), ([''a''], 10 :: int)]) \<and>
   graph_total_descendants (sizes_to_graph [([''a'', ''b''], 5), ([''a''], 10)]) = Some 3 \<and>
   map fst (node (sizes_to_graph [([''a'', ''b''], 5), ([''a''], 10)])) = [[''a'', ''b''], [''a''], []]"
  by code_simp


lemma relative_butlast: "relative p \<Longrightarrow> relative (butlast p)"
  by (cases p rule: rev_cases; cases "butlast p") (auto simp: relative_def)

lemma relative_parents_ne: "relative p \<Longrightarrow> p \<noteq> [] \<Longrightarrow> parents p \<noteq> []"
  by (auto simp: parents_Nil_iff relative_def)

lemma relative_ancestors:
  "relative p \<Longrightarrow> (\<forall>q \<in> set (parents p). relative q) \<and> ROOT \<in> set (p # parents p)"
proof (induction p rule: parents.induct)
  case (1 p)
  show ?case
  proof (cases "p = []")
    case True
    then show ?thesis by (simp add: ROOT_def parents_Nil_iff[THEN iffD2])
  next
    case False
    with "1.prems" have ne: "parents p \<noteq> []" by (simp add: relative_parents_ne)
    then have eq: "parents p = butlast p # parents (butlast p)" by (rule parents_Cons)
    from ne have c: "\<not> (p = [] \<or> length p = 1 \<and> is_anchor (hd p))"
      by (simp add: parents_Nil_iff)
    from "1.prems" have rb: "relative (butlast p)" by (rule relative_butlast)
    from "1.IH"[OF c rb] rb show ?thesis unfolding eq by auto
  qed
qed

lemma nodes_of_relative:
  assumes "\<forall>p \<in> set ps. relative p" "n \<in> nodes_of ps"
  shows "relative n"
  using assms relative_ancestors unfolding nodes_of_def by auto

lemma wf_treeD:
  "wf_tree g \<Longrightarrow> edges_ok g"
  "wf_tree g \<Longrightarrow> has_node g v \<Longrightarrow> parents v \<noteq> [] \<Longrightarrow> v \<in> set (adj g (butlast v))"
  "wf_tree g \<Longrightarrow> distinct (adj g u)"
  by (auto simp: wf_tree_def linked_def edges_ok_def)

lemma wf_tree_edge:
  "wf_tree g \<Longrightarrow> v \<in> set (adj g u) \<Longrightarrow>
     has_node g u \<and> has_node g v \<and> parents v \<noteq> [] \<and> u = butlast v"
  using edges_okD wf_treeD(1) by blast

lemma acyclic_edges: "wf_tree g \<Longrightarrow> acyclic (edges g)"
proof -
  assume wf: "wf_tree g"
  have "edges g \<subseteq> measure length"
  proof
    fix e assume "e \<in> edges g"
    then obtain u v where e: "e = (u, v)" and "v \<in> set (adj g u)"
      by (auto simp: edges_def)
    from wf_tree_edge[OF wf this(2)] have "parents v \<noteq> []" "u = butlast v" by simp_all
    then have "length u < length v" using parents_nonempty[of v] by simp
    then show "e \<in> measure length" by (simp add: e)
  qed
  moreover have "acyclic (measure length :: (path \<times> path) set)"
    by (rule wf_acyclic) simp
  ultimately show ?thesis by (rule acyclic_subset[rotated])
qed

lemma reach_from_root:
  assumes wf: "wf_tree g" and rel: "\<And>n. has_node g n \<Longrightarrow> relative n"
  shows "has_node g n \<Longrightarrow> (ROOT, n) \<in> (edges g)\<^sup>*"
proof (induction "length n" arbitrary: n)
  case 0
  then show ?case by (simp add: ROOT_def)
next
  case (Suc k)
  then have ne: "n \<noteq> []" by auto
  with rel[OF Suc.prems] have pn: "parents n \<noteq> []" by (simp add: relative_parents_ne)
  from wf_treeD(2)[OF wf Suc.prems pn] have e: "n \<in> set (adj g (butlast n))" .
  from wf_tree_edge[OF wf e] have "has_node g (butlast n)" by simp
  moreover from Suc.hyps(2) have "k = length (butlast n)" by simp
  ultimately have "(ROOT, butlast n) \<in> (edges g)\<^sup>*" by (rule Suc.hyps(1)[rotated])
  moreover from e have "(butlast n, n) \<in> edges g" by (simp add: edges_def)
  ultimately show ?case by (rule rtrancl_into_rtrancl)
qed

text \<open>
  Claim C10, as amended. For a manifest of relative paths, every node but
  \<^verbatim>\<open>Path(".")\<close> has exactly one incoming edge, from the path without its last part;
  no edge is repeated, no edge enters \<^verbatim>\<open>Path(".")\<close>, the edges have no cycle and
  every node is reached from \<^verbatim>\<open>Path(".")\<close>.
\<close>

theorem build_is_tree:
  assumes "\<forall>p \<in> set (map fst m). relative p"
  shows "(\<forall>n. has_node (sizes_to_graph m) n \<and> n \<noteq> ROOT \<longrightarrow>
            has_node (sizes_to_graph m) (butlast n) \<and>
            {u. (u, n) \<in> edges (sizes_to_graph m)} = {butlast n})
       \<and> (\<forall>u. distinct (adj (sizes_to_graph m) u))
       \<and> {u. (u, ROOT) \<in> edges (sizes_to_graph m)} = {}
       \<and> acyclic (edges (sizes_to_graph m))
       \<and> (\<forall>n. has_node (sizes_to_graph m) n \<longrightarrow> (ROOT, n) \<in> (edges (sizes_to_graph m))\<^sup>*)"
proof -
  let ?g = "sizes_to_graph m"
  have wf: "wf_tree ?g" by (rule sizes_to_graph_built)
  have rel: "relative n" if "has_node ?g n" for n
    using nodes_of_relative[OF assms] that by (simp add: has_node_built)
  have a: "has_node ?g (butlast n) \<and> {u. (u, n) \<in> edges ?g} = {butlast n}"
    if "has_node ?g n \<and> n \<noteq> ROOT" for n
  proof -
    from that rel have pn: "parents n \<noteq> []" by (simp add: relative_parents_ne ROOT_def)
    from that wf_treeD(2)[OF wf _ pn] have e: "n \<in> set (adj ?g (butlast n))" by simp
    from wf_tree_edge[OF wf e] have "has_node ?g (butlast n)" by simp
    moreover have "{u. (u, n) \<in> edges ?g} = {butlast n}"
    proof (intro equalityI subsetI)
      fix u assume "u \<in> {u. (u, n) \<in> edges ?g}"
      then have "n \<in> set (adj ?g u)" by (simp add: edges_def)
      from wf_tree_edge[OF wf this] show "u \<in> {butlast n}" by blast
    next
      fix u assume "u \<in> {butlast n}"
      with e show "u \<in> {u. (u, n) \<in> edges ?g}" by (simp add: edges_def)
    qed
    ultimately show ?thesis by (rule conjI)
  qed
  have b: "{u. (u, ROOT) \<in> edges ?g} = {}"
  proof (intro equalityI subsetI)
    fix u assume "u \<in> {u. (u, ROOT) \<in> edges ?g}"
    then have "ROOT \<in> set (adj ?g u)" by (simp add: edges_def)
    from wf_tree_edge[OF wf this] have "parents ROOT \<noteq> []" by blast
    then show "u \<in> {}" by (simp add: ROOT_def parents_Nil_iff)
  qed simp
  have c: "\<forall>u. distinct (adj ?g u)" using wf_treeD(3)[OF wf] by blast
  have d: "\<forall>n. has_node ?g n \<longrightarrow> (ROOT, n) \<in> (edges ?g)\<^sup>*"
    using reach_from_root[OF wf rel] by blast
  from a have a': "\<forall>n. has_node ?g n \<and> n \<noteq> ROOT \<longrightarrow>
            has_node ?g (butlast n) \<and> {u. (u, n) \<in> edges ?g} = {butlast n}" by blast
  show ?thesis
    by (intro conjI a' b c d acyclic_edges[OF wf])
qed

theorem build_is_tree_witness:
  "list_all relative (map fst [([''a'', ''x''], 5 :: int), ([''a'', ''y''], 7)]) \<and>
   {u. (u, [''a'', ''x'']) \<in> edges (sizes_to_graph [([''a'', ''x''], 5), ([''a'', ''y''], 7)])} = {[''a'']} \<and>
   (ROOT, [''a'', ''y'']) \<in> (edges (sizes_to_graph [([''a'', ''x''], 5), ([''a'', ''y''], 7)]))\<^sup>*"
proof -
  let ?m = "[([''a'', ''x''], 5 :: int), ([''a'', ''y''], 7)]"
  have h: "\<forall>p \<in> set (map fst ?m). relative p" by (simp add: relative_def is_anchor_def)
  have n: "has_node (sizes_to_graph ?m) [''a'', ''x''] \<and> [''a'', ''x''] \<noteq> ROOT"
    "has_node (sizes_to_graph ?m) [''a'', ''y'']" by code_simp+
  from build_is_tree[OF h]
  have "\<forall>n. has_node (sizes_to_graph ?m) n \<and> n \<noteq> ROOT \<longrightarrow>
            has_node (sizes_to_graph ?m) (butlast n) \<and>
            {u. (u, n) \<in> edges (sizes_to_graph ?m)} = {butlast n}"
    and "\<forall>n. has_node (sizes_to_graph ?m) n \<longrightarrow> (ROOT, n) \<in> (edges (sizes_to_graph ?m))\<^sup>*"
    by blast+
  with n have "{u. (u, [''a'', ''x'']) \<in> edges (sizes_to_graph ?m)} = {butlast [''a'', ''x'']}"
    and "(ROOT, [''a'', ''y'']) \<in> (edges (sizes_to_graph ?m))\<^sup>*" by blast+
  with h show ?thesis by (simp add: list_all_iff)
qed

text \<open>
  C10 fails for an absolute path: its ancestors end at the anchor \<^verbatim>\<open>"/"\<close>, a node
  other than \<^verbatim>\<open>Path(".")\<close> with no incoming edge, and \<^verbatim>\<open>Path(".")\<close> is not a
  node.
\<close>

theorem build_tree_root_counterexample:
  "distinct (map fst [([''/'', ''a''], 1 :: int)]) \<and>
   has_node (sizes_to_graph [([''/'', ''a''], 1)]) [''/''] \<and> [''/''] \<noteq> ROOT \<and>
   [''/''] \<notin> set (adj (sizes_to_graph [([''/'', ''a''], 1)]) (butlast [''/''])) \<and>
   \<not> has_node (sizes_to_graph [([''/'', ''a''], 1)]) ROOT"
  by code_simp
section \<open>Properties of the aggregate computation\<close>

lemma set_data_frame:
  "has_node g n \<Longrightarrow> keys (set_data n s d g) = keys g"
  "adj (set_data n s d g) = adj g"
  "graph_total_size (set_data n s d g) = graph_total_size g"
  "graph_total_descendants (set_data n s d g) = graph_total_descendants g"
  by (simp_all add: set_data_def update_keys has_node_iff keys_def)

text \<open>Caching changes attributes only: the nodes, the edges and the totals stay.\<close>

lemma size_descendants_frame:
  "size_descendants k g n = Inr (v, g') \<Longrightarrow>
     keys g' = keys g \<and> adj g' = adj g \<and>
     graph_total_size g' = graph_total_size g \<and>
     graph_total_descendants g' = graph_total_descendants g"
  "sum_children k g cs s d = Inr (v, g') \<Longrightarrow>
     keys g' = keys g \<and> adj g' = adj g \<and>
     graph_total_size g' = graph_total_size g \<and>
     graph_total_descendants g' = graph_total_descendants g"
proof (induction k g n and k g cs s d arbitrary: v g' and v g'
    rule: size_descendants_sum_children.induct)
  case (1 g n)
  then show ?case by simp
next
  case (2 limit g n)
  from "2.prems" obtain data where data: "map_of (node g) n = Some data"
    by (auto split: option.splits)
  show ?case
  proof (cases "attr_descendants data = None \<or> attr_size data = None \<or> attr_size data = Some 0")
    case True
    with "2.prems" data obtain s d g1 where
      sc: "sum_children limit g (successors g n)
             (case attr_size data of None \<Rightarrow> 0 | Some x \<Rightarrow> x)
             (case attr_descendants data of None \<Rightarrow> 0 | Some x \<Rightarrow> x) = Inr ((s, d), g1)"
      and g': "g' = set_data n s d g1"
      by (auto simp: Let_def split: sum.splits)
    from "2.IH"[OF data refl refl True sc]
    have fr: "keys g1 = keys g" "adj g1 = adj g"
      "graph_total_size g1 = graph_total_size g"
      "graph_total_descendants g1 = graph_total_descendants g" by simp_all
    from data have "has_node g n" by (simp add: has_node_def)
    with fr(1) have "has_node g1 n" by (simp add: has_node_iff)
    with fr g' show ?thesis by (simp add: set_data_frame)
  next
    case False
    with "2.prems" data show ?thesis by (auto simp: Let_def)
  qed
next
  case (3 limit g s d)
  then show ?case by simp
next
  case (4 limit g child children s d)
  from "4.prems" obtain c_s c_d g1 where
    c: "size_descendants limit g child = Inr ((c_s, c_d), g1)"
    and r: "sum_children limit g1 children (s + c_s) (d + (1 + c_d)) = Inr (v, g')"
    by (auto split: sum.splits)
  from "4.IH"(1)[OF c] "4.IH"(2)[OF c refl refl r]
  show ?case by simp
qed

section \<open>The decision at a node\<close>

text \<open>
  Claim C5. With a positive \<^verbatim>\<open>max_zip_bytes\<close>, the decision at a node of aggregate
  size \<open>0\<close> is to yield and to abort, whatever \<^verbatim>\<open>max_files_per_TiB\<close> is: the density
  is not computed, so no \<^verbatim>\<open>ZeroDivisionError\<close> is raised.
\<close>

theorem zero_size_no_division:
  assumes "size_descendants limit g n = Inr ((0, desc), g1)" and "0 < max_zip_bytes"
  shows "yield_abort_if limit max_zip_bytes max_files_per_TiB g n = Inr ((True, True), g1)"
  using assms by (simp add: yield_abort_if_def)

theorem zero_size_no_division_witness:
  "(0::int) < 100 \<and>
   map_sum id fst (yield_abort_if 5 100 1
      (sizes_to_graph [([''d'', ''e''], 0)]) [''d'']) = Inr (True, True)"
proof -
  let ?g = "sizes_to_graph [([''d'', ''e''], 0)]"
  let ?r = "size_descendants 5 ?g [''d'']"
  have "map_sum id fst ?r = Inr (0, 1)" by code_simp
  then obtain g1 where "?r = Inr ((0, 1), g1)" by (cases ?r) auto
  from zero_size_no_division[OF this, of 100 1] show ?thesis by simp
qed
section \<open>The tree below a node, and the aggregates\<close>


lemma under_refl [simp]: "under n n"
  by (simp add: under_def)

lemma under_length: "under a n \<Longrightarrow> length a \<le> length n"
  using parents_shorter[of a n] by (auto simp: under_def)

lemma under_strict_length: "under a n \<Longrightarrow> a \<noteq> n \<Longrightarrow> length a < length n"
  using parents_shorter[of a n] by (auto simp: under_def)

lemma under_antisym: "under a n \<Longrightarrow> under n a \<Longrightarrow> a = n"
  using under_strict_length[of a n] under_strict_length[of n a] by fastforce

lemma under_trans: "under a n \<Longrightarrow> under n m \<Longrightarrow> under a m"
  using parents_closed[of n m] by (auto simp: under_def)

lemma under_parents: "parents m \<noteq> [] \<Longrightarrow> under a m \<longleftrightarrow> a = m \<or> under a (butlast m)"
  using parents_Cons[of m] by (auto simp: under_def)

lemma under_root: "parents m = [] \<Longrightarrow> under a m \<longleftrightarrow> a = m"
  by (simp add: under_def)

lemma under_comparable: "under a m \<Longrightarrow> under b m \<Longrightarrow> under a b \<or> under b a"
proof (induction m rule: parents.induct)
  case (1 m)
  show ?case
  proof (cases "parents m = []")
    case True
    with "1.prems" show ?thesis by (simp add: under_root)
  next
    case False
    then have c: "\<not> (m = [] \<or> length m = 1 \<and> is_anchor (hd m))"
      by (simp add: parents_Nil_iff)
    note up = under_parents[OF False]
    show ?thesis
    proof (cases "a = m \<or> b = m")
      case True
      with "1.prems" show ?thesis by auto
    next
      case False
      with "1.prems" up have "under a (butlast m)" "under b (butlast m)" by auto
      then show ?thesis by (rule "1.IH"[OF c])
    qed
  qed
qed

lemma child_under:
  assumes "wf_tree g" "c \<in> set (adj g n)"
  shows "under n c" "c \<noteq> n" "has_node g c" "has_node g n" "length c = Suc (length n)"
    "under a c \<longleftrightarrow> a = c \<or> under a n"
proof -
  from wf_tree_edge[OF assms] have hc: "has_node g c" and hn: "has_node g n"
    and pc: "parents c \<noteq> []" and n: "n = butlast c" by blast+
  from pc have ne: "c \<noteq> []" by (rule parents_nonempty)
  show "has_node g c" "has_node g n" by fact+
  show "under a c \<longleftrightarrow> a = c \<or> under a n" using under_parents[OF pc] n by simp
  then show "under n c" using under_parents[OF pc, of n] n by simp
  show "length c = Suc (length n)" using ne n by simp
  then show "c \<noteq> n" by auto
qed

lemma siblings_disjoint:
  assumes wf: "wf_tree g" and c: "c \<in> set (adj g n)" and c': "c' \<in> set (adj g n)"
    and u: "under c m" and u': "under c' m"
  shows "c = c'"
proof -
  from under_comparable[OF u u'] have "under c c' \<or> under c' c" .
  moreover have "length c = length c'"
    using child_under(5)[OF wf c] child_under(5)[OF wf c'] by simp
  ultimately show ?thesis
    using under_strict_length[of c c'] under_strict_length[of c' c] by fastforce
qed

lemma child_towards:
  assumes wf: "wf_tree g"
  shows "has_node g m \<Longrightarrow> under n m \<Longrightarrow> m \<noteq> n \<Longrightarrow> \<exists>c \<in> set (adj g n). under c m"
proof (induction m rule: parents.induct)
  case (1 m)
  from "1.prems"(2,3) have pm: "parents m \<noteq> []" by (auto simp: under_def)
  then have c: "\<not> (m = [] \<or> length m = 1 \<and> is_anchor (hd m))"
    by (simp add: parents_Nil_iff)
  from wf_treeD(2)[OF wf "1.prems"(1) pm] have e: "m \<in> set (adj g (butlast m))" .
  from "1.prems"(2,3) under_parents[OF pm] have ub: "under n (butlast m)" by simp
  show ?case
  proof (cases "n = butlast m")
    case True
    with e under_refl[of m] show ?thesis by blast
  next
    case False
    from child_under(4)[OF wf e] have "has_node g (butlast m)" .
    from "1.IH"[OF c this ub] False obtain c where "c \<in> set (adj g n)" "under c (butlast m)"
      by auto
    moreover have "under (butlast m) m" using under_parents[OF pm] by simp
    ultimately show ?thesis using under_trans by blast
  qed
qed

lemma deep_enough_pos: "has_node g n \<Longrightarrow> deep_enough k g n \<Longrightarrow> 0 < k"
  unfolding deep_enough_def using under_refl[of n] by fastforce

lemma deep_enough_child:
  assumes "wf_tree g" "c \<in> set (adj g n)" "deep_enough (Suc k) g n"
  shows "deep_enough k g c"
  unfolding deep_enough_def
proof (intro allI impI)
  fix m assume m: "has_node g m \<and> under c m"
  with under_trans[OF child_under(1)[OF assms(1,2)]] have "under n m" by blast
  with m assms(3) have "length m < Suc k + length n" by (simp add: deep_enough_def)
  then show "length m < k + length c" using child_under(5)[OF assms(1,2)] by simp
qed

lemma deep_enough_global: "\<forall>m. has_node g m \<longrightarrow> length m < L \<Longrightarrow> deep_enough L g n"
  unfolding deep_enough_def using trans_less_add1 by blast

lemma deep_enough_mono: "deep_enough k g n \<Longrightarrow> k \<le> k' \<Longrightarrow> deep_enough k' g n"
  unfolding deep_enough_def by (meson add_le_mono1 less_le_trans)


lemma agg_Suc:
  "map_of (node g) n = Some data \<Longrightarrow>
   agg (Suc k) g n =
     (if recompute data then agg_children k g (adj g n) (start_s data) (start_d data)
      else Inr (the (attr_size data), the (attr_descendants data)))"
  by (simp add: recompute_def start_s_def start_d_def successors_def Let_def)

lemma size_descendants_Suc:
  "map_of (node g) n = Some data \<Longrightarrow>
   size_descendants (Suc k) g n =
     (if recompute data then
        (case sum_children k g (adj g n) (start_s data) (start_d data) of
           Inl e \<Rightarrow> Inl e
         | Inr ((s, d), g) \<Rightarrow> Inr ((s, d), set_data n s d g))
      else Inr ((the (attr_size data), the (attr_descendants data)), g))"
  by (simp add: recompute_def start_s_def start_d_def successors_def Let_def)

declare agg.simps(2) [simp del] size_descendants.simps(2) [simp del]

lemma agg_children_sum:
  "\<forall>c \<in> set cs. agg k g c = Inr (f c) \<Longrightarrow>
   agg_children k g cs s d =
     Inr (s + sum_list (map (\<lambda>c. fst (f c)) cs), d + sum_list (map (\<lambda>c. 1 + snd (f c)) cs))"
proof (induction cs arbitrary: s d)
  case Nil
  then show ?case by simp
next
  case (Cons c cs)
  from Cons.prems have c: "agg k g c = Inr (f c)" and r: "\<forall>c \<in> set cs. agg k g c = Inr (f c)"
    by simp_all
  show ?case
    by (simp add: c Cons.IH[OF r] split_beta add.assoc)
qed

lemma agg_mono_Suc:
  "agg k g n = Inr v \<Longrightarrow> agg (Suc k) g n = Inr v"
  "agg_children k g cs s d = Inr v \<Longrightarrow> agg_children (Suc k) g cs s d = Inr v"
proof (induction k g n and k g cs s d arbitrary: v and v rule: agg_agg_children.induct)
  case (1 g n)
  then show ?case by simp
next
  case (2 k g n)
  from "2.prems" obtain data where data: "map_of (node g) n = Some data"
    by (auto simp: agg.simps(2) split: option.splits)
  show ?case
  proof (cases "recompute data")
    case True
    with "2.prems" data have "agg_children k g (adj g n) (start_s data) (start_d data) = Inr v"
      by (simp add: agg_Suc)
    then have "agg_children k g (successors g n) (case attr_size data of None \<Rightarrow> 0 | Some x \<Rightarrow> x)
         (case attr_descendants data of None \<Rightarrow> 0 | Some x \<Rightarrow> x) = Inr v"
      by (simp add: successors_def start_s_def start_d_def)
    from "2.IH"[OF data refl refl _ this] True
    have "agg_children (Suc k) g (adj g n) (start_s data) (start_d data) = Inr v"
      by (simp add: successors_def start_s_def start_d_def recompute_def)
    with True data show ?thesis by (simp add: agg_Suc[of g n data "Suc k"])
  next
    case False
    with "2.prems" data show ?thesis by (simp add: agg_Suc)
  qed
next
  case (3 k g s d)
  then show ?case by simp
next
  case (4 k g c cs s d)
  from "4.prems" obtain c_s c_d where c: "agg k g c = Inr (c_s, c_d)"
    and r: "agg_children k g cs (s + c_s) (d + (1 + c_d)) = Inr v"
    by (auto split: sum.splits)
  from "4.IH"(1)[OF c] "4.IH"(2)[OF c refl r]
  show ?case by simp
qed

lemma agg_mono: "k \<le> k' \<Longrightarrow> agg k g n = Inr v \<Longrightarrow> agg k' g n = Inr v"
  by (induction rule: dec_induct) (simp_all add: agg_mono_Suc)

lemma agg_fuel: "agg k g n = Inr v \<Longrightarrow> agg k' g n = Inr v' \<Longrightarrow> v = v'"
  using agg_mono[of k k' g n v] agg_mono[of k' k g n v'] by (cases "k \<le> k'") auto

lemma agg_total:
  assumes wf: "wf_tree g"
  shows "has_node g n \<Longrightarrow> deep_enough k g n \<Longrightarrow> \<exists>v. agg k g n = Inr v"
proof (induction k arbitrary: n)
  case 0
  with deep_enough_pos show ?case by blast
next
  case (Suc k)
  from Suc.prems(1) obtain data where data: "map_of (node g) n = Some data"
    by (auto simp: has_node_def)
  show ?case
  proof (cases "recompute data")
    case True
    have "\<forall>c \<in> set (adj g n). \<exists>v. agg k g c = Inr v"
      using Suc.IH child_under(3)[OF wf] deep_enough_child[OF wf _ Suc.prems(2)] by blast
    then obtain f where "\<forall>c \<in> set (adj g n). agg k g c = Inr (f c)" by metis
    from agg_children_sum[OF this] True data show ?thesis by (simp add: agg_Suc)
  next
    case False
    with data show ?thesis by (simp add: agg_Suc)
  qed
qed

lemma agg_aggv:
  assumes "wf_tree g" "\<forall>m. has_node g m \<longrightarrow> length m < L" "has_node g n" "deep_enough k g n"
  shows "agg k g n = Inr (aggv L g n)"
proof -
  from assms(2) have "deep_enough L g n" by (rule deep_enough_global)
  from agg_total[OF assms(1,3) this] obtain v where v: "agg L g n = Inr v" ..
  from agg_total[OF assms(1,3,4)] obtain v' where v': "agg k g n = Inr v'" ..
  from agg_fuel[OF v v'] v v' show ?thesis by (simp add: aggv_def)
qed

lemma aggv_unfold:
  assumes wf: "wf_tree g" and L: "\<forall>m. has_node g m \<longrightarrow> length m < L"
    and data: "map_of (node g) n = Some data"
  shows "aggv L g n =
     (if recompute data then
        (start_s data + sum_list (map (\<lambda>c. fst (aggv L g c)) (adj g n)),
         start_d data + sum_list (map (\<lambda>c. 1 + snd (aggv L g c)) (adj g n)))
      else (the (attr_size data), the (attr_descendants data)))"
proof -
  from data have hn: "has_node g n" by (simp add: has_node_def)
  from L have "deep_enough L g n" by (rule deep_enough_global)
  with hn have "0 < L" by (rule deep_enough_pos)
  then obtain k where k: "L = Suc k" by (cases L) auto
  have de: "deep_enough (Suc k) g n" using \<open>deep_enough L g n\<close> k by simp
  have "\<forall>c \<in> set (adj g n). agg k g c = Inr (aggv L g c)"
    using agg_aggv[OF wf L] child_under(3)[OF wf] deep_enough_child[OF wf _ de] by blast
  from agg_children_sum[OF this] data
  have "agg (Suc k) g n =
     (if recompute data then
        Inr (start_s data + sum_list (map (\<lambda>c. fst (aggv L g c)) (adj g n)),
         start_d data + sum_list (map (\<lambda>c. 1 + snd (aggv L g c)) (adj g n)))
      else Inr (the (attr_size data), the (attr_descendants data)))"
    by (simp add: agg_Suc)
  then show ?thesis using k by (auto simp: aggv_def[of "Suc k" g n])
qed


lemma map_of_set_data:
  "map_of (node (set_data n s d g)) =
     (map_of (node g))(n \<mapsto> \<lparr>attr_size = Some s, attr_descendants = Some d\<rparr>)"
  by (simp add: set_data_def update_conv')

lemma fresh_below_sub: "fresh_below g0 g n \<Longrightarrow> under n m \<Longrightarrow> fresh_below g0 g m"
  unfolding fresh_below_def using under_trans by blast

lemma fresh_children:
  assumes wf: "wf_tree g0"
    and call: "\<And>c g. c \<in> set (adj g0 n) \<Longrightarrow> adj g = adj g0 \<Longrightarrow> keys g = keys g0 \<Longrightarrow>
        fresh_below g0 g c \<Longrightarrow>
        \<exists>g'. size_descendants k g c = Inr (aggv L g0 c, g') \<and> adj g' = adj g0 \<and> keys g' = keys g0 \<and>
          (\<forall>m. \<not> under c m \<longrightarrow> map_of (node g') m = map_of (node g) m) \<and>
          (\<forall>m. under c m \<and> has_node g0 m \<longrightarrow> exact L g0 g' m \<or> fresh_below g0 g' m)"
  shows "distinct cs \<Longrightarrow> set cs \<subseteq> set (adj g0 n) \<Longrightarrow> adj g = adj g0 \<Longrightarrow> keys g = keys g0 \<Longrightarrow>
     \<forall>c \<in> set cs. fresh_below g0 g c \<Longrightarrow>
     \<exists>g'. sum_children k g cs s d =
            Inr ((s + sum_list (map (\<lambda>c. fst (aggv L g0 c)) cs),
                  d + sum_list (map (\<lambda>c. 1 + snd (aggv L g0 c)) cs)), g') \<and>
          adj g' = adj g0 \<and> keys g' = keys g0 \<and>
          (\<forall>m. (\<forall>c \<in> set cs. \<not> under c m) \<longrightarrow> map_of (node g') m = map_of (node g) m) \<and>
          (\<forall>c \<in> set cs. \<forall>m. under c m \<and> has_node g0 m \<longrightarrow>
              exact L g0 g' m \<or> fresh_below g0 g' m)"
proof (induction cs arbitrary: g s d)
  case Nil
  then show ?case by simp
next
  case (Cons c cs)
  from Cons.prems have cin: "c \<in> set (adj g0 n)" and cnot: "c \<notin> set cs"
    and dcs: "distinct cs" and sub: "set cs \<subseteq> set (adj g0 n)"
    and fc: "fresh_below g0 g c" and fcs: "\<forall>c' \<in> set cs. fresh_below g0 g c'" by auto
  from call[OF cin Cons.prems(3,4) fc] obtain g1 where
    r1: "size_descendants k g c = Inr (aggv L g0 c, g1)"
    and s1: "adj g1 = adj g0" "keys g1 = keys g0"
    and u1: "\<And>m. \<not> under c m \<Longrightarrow> map_of (node g1) m = map_of (node g) m"
    and p1: "\<And>m. under c m \<Longrightarrow> has_node g0 m \<Longrightarrow> exact L g0 g1 m \<or> fresh_below g0 g1 m"
    by blast
  have disj: "\<not> under c x" if "c' \<in> set cs" "under c' x" for c' x
  proof
    assume "under c x"
    from siblings_disjoint[OF wf cin _ this that(2)] that(1) sub have "c = c'" by blast
    with that(1) cnot show False by simp
  qed
  have f1: "\<forall>c' \<in> set cs. fresh_below g0 g1 c'"
  proof
    fix c' assume c': "c' \<in> set cs"
    show "fresh_below g0 g1 c'" unfolding fresh_below_def
    proof (intro allI impI)
      fix x assume x: "under c' x"
      from disj[OF c' x] have "map_of (node g1) x = map_of (node g) x" by (rule u1)
      also from fcs c' x have "\<dots> = map_of (node g0) x" by (simp add: fresh_below_def)
      finally show "map_of (node g1) x = map_of (node g0) x" .
    qed
  qed
  obtain v1 v2 where v: "aggv L g0 c = (v1, v2)" by (cases "aggv L g0 c")
  from Cons.IH[OF dcs sub s1 f1, of "s + v1" "d + (1 + v2)"] obtain g' where
    r2: "sum_children k g1 cs (s + v1) (d + (1 + v2)) =
           Inr ((s + v1 + sum_list (map (\<lambda>c. fst (aggv L g0 c)) cs),
                 d + (1 + v2) + sum_list (map (\<lambda>c. 1 + snd (aggv L g0 c)) cs)), g')"
    and s2: "adj g' = adj g0" "keys g' = keys g0"
    and u2: "\<And>m. (\<forall>c \<in> set cs. \<not> under c m) \<Longrightarrow> map_of (node g') m = map_of (node g1) m"
    and p2: "\<And>c' m. c' \<in> set cs \<Longrightarrow> under c' m \<Longrightarrow> has_node g0 m \<Longrightarrow>
               exact L g0 g' m \<or> fresh_below g0 g' m"
    by blast
  have res: "sum_children k g (c # cs) s d =
     Inr ((s + sum_list (map (\<lambda>c. fst (aggv L g0 c)) (c # cs)),
           d + sum_list (map (\<lambda>c. 1 + snd (aggv L g0 c)) (c # cs))), g')"
    using r1 r2 v by (simp add: add.assoc)
  have keep: "map_of (node g') x = map_of (node g1) x" if "under c x" for x
    using disj that by (intro u2) blast
  have u: "\<forall>m. (\<forall>c' \<in> set (c # cs). \<not> under c' m) \<longrightarrow> map_of (node g') m = map_of (node g) m"
    using u1 u2 by simp
  have p: "\<forall>c' \<in> set (c # cs). \<forall>m. under c' m \<and> has_node g0 m \<longrightarrow>
              exact L g0 g' m \<or> fresh_below g0 g' m"
  proof (intro ballI allI impI)
    fix c' m assume c': "c' \<in> set (c # cs)" and m: "under c' m \<and> has_node g0 m"
    show "exact L g0 g' m \<or> fresh_below g0 g' m"
    proof (cases "c' = c")
      case True
      with m p1 have "exact L g0 g1 m \<or> fresh_below g0 g1 m" by blast
      then show ?thesis
      proof
        assume "exact L g0 g1 m"
        with keep[of m] m True have "exact L g0 g' m" by (simp add: exact_def)
        then show ?thesis ..
      next
        assume fb: "fresh_below g0 g1 m"
        have "fresh_below g0 g' m" unfolding fresh_below_def
        proof (intro allI impI)
          fix x assume "under m x"
          with m True have "under c x" using under_trans by blast
          from keep[OF this] fb \<open>under m x\<close> show "map_of (node g') x = map_of (node g0) x"
            by (simp add: fresh_below_def)
        qed
        then show ?thesis ..
      qed
    next
      case False
      with c' m p2 show ?thesis by auto
    qed
  qed
  from res s2 u p show ?case by blast
qed


lemma node_data_eq:
  "attr_size data = a \<Longrightarrow> attr_descendants data = b \<Longrightarrow>
   data = \<lparr>attr_size = a, attr_descendants = b\<rparr>"
  by (cases data) simp

lemma not_recompute:
  "\<not> recompute data \<Longrightarrow>
   data = \<lparr>attr_size = Some (the (attr_size data)),
           attr_descendants = Some (the (attr_descendants data))\<rparr> \<and> the (attr_size data) \<noteq> 0"
  by (cases data) (auto simp: recompute_def)

lemma keys_set_data: "has_node g n \<Longrightarrow> keys (set_data n s d g) = keys g"
  by (simp add: set_data_def update_keys has_node_iff keys_def)

lemma adj_set_data [simp]: "adj (set_data n s d g) = adj g"
  by (simp add: set_data_def)

lemma has_node_shape: "keys g = keys g0 \<Longrightarrow> has_node g = has_node g0"
  by (simp add: has_node_iff fun_eq_iff)

lemma fresh_call:
  assumes wf: "wf_tree g0" and L: "\<forall>m. has_node g0 m \<longrightarrow> length m < L"
  shows "has_node g0 n \<Longrightarrow> deep_enough k g0 n \<Longrightarrow> adj g = adj g0 \<Longrightarrow> keys g = keys g0 \<Longrightarrow>
     fresh_below g0 g n \<Longrightarrow>
     \<exists>g'. size_descendants k g n = Inr (aggv L g0 n, g') \<and> adj g' = adj g0 \<and> keys g' = keys g0 \<and>
        (\<forall>m. \<not> under n m \<longrightarrow> map_of (node g') m = map_of (node g) m) \<and>
        (\<forall>m. under n m \<and> has_node g0 m \<longrightarrow> exact L g0 g' m \<or> fresh_below g0 g' m) \<and>
        exact L g0 g' n"
proof (induction k arbitrary: n g)
  case 0
  with deep_enough_pos show ?case by blast
next
  case (Suc k)
  from Suc.prems(1) obtain data where d0: "map_of (node g0) n = Some data"
    by (auto simp: has_node_def)
  with Suc.prems(5) have dg: "map_of (node g) n = Some data"
    by (simp add: fresh_below_def)
  note av = aggv_unfold[OF wf L d0]
  show ?case
  proof (cases "recompute data")
    case False
    with av have v: "aggv L g0 n = (the (attr_size data), the (attr_descendants data))" by simp
    have r: "size_descendants (Suc k) g n = Inr (aggv L g0 n, g)"
      using False dg v by (simp add: size_descendants_Suc)
    have e: "exact L g0 g n"
      unfolding exact_def dg v using not_recompute[OF False] by simp
    have "\<forall>m. under n m \<and> has_node g0 m \<longrightarrow> exact L g0 g m \<or> fresh_below g0 g m"
      using fresh_below_sub[OF Suc.prems(5)] by blast
    with r e Suc.prems(3,4) show ?thesis by blast
  next
    case True
    let ?cs = "adj g0 n"
    have call: "\<exists>g'. size_descendants k g c = Inr (aggv L g0 c, g') \<and> adj g' = adj g0 \<and>
          keys g' = keys g0 \<and>
          (\<forall>m. \<not> under c m \<longrightarrow> map_of (node g') m = map_of (node g) m) \<and>
          (\<forall>m. under c m \<and> has_node g0 m \<longrightarrow> exact L g0 g' m \<or> fresh_below g0 g' m)"
      if "c \<in> set ?cs" "adj g = adj g0" "keys g = keys g0" "fresh_below g0 g c" for c g
      using Suc.IH[OF child_under(3)[OF wf that(1)] deep_enough_child[OF wf that(1) Suc.prems(2)]
          that(2,3,4)] by blast
    have fcs: "\<forall>c \<in> set ?cs. fresh_below g0 g c"
      using fresh_below_sub[OF Suc.prems(5)] child_under(1)[OF wf] by blast
    from fresh_children[OF wf call wf_treeD(3)[OF wf] subset_refl Suc.prems(3,4) fcs,
        of "start_s data" "start_d data"]
    obtain g1 where
      r1: "sum_children k g ?cs (start_s data) (start_d data) =
            Inr ((start_s data + sum_list (map (\<lambda>c. fst (aggv L g0 c)) ?cs),
                  start_d data + sum_list (map (\<lambda>c. 1 + snd (aggv L g0 c)) ?cs)), g1)"
      and s1: "adj g1 = adj g0" "keys g1 = keys g0"
      and u1: "\<And>m. (\<forall>c \<in> set ?cs. \<not> under c m) \<Longrightarrow> map_of (node g1) m = map_of (node g) m"
      and p1: "\<And>c m. c \<in> set ?cs \<Longrightarrow> under c m \<Longrightarrow> has_node g0 m \<Longrightarrow>
                exact L g0 g1 m \<or> fresh_below g0 g1 m"
      by blast
    obtain S D where SD: "aggv L g0 n = (S, D)" by (cases "aggv L g0 n")
    with av True have SDe: "S = start_s data + sum_list (map (\<lambda>c. fst (aggv L g0 c)) ?cs)"
      "D = start_d data + sum_list (map (\<lambda>c. 1 + snd (aggv L g0 c)) ?cs)" by simp_all
    let ?g' = "set_data n S D g1"
    have r: "size_descendants (Suc k) g n = Inr (aggv L g0 n, ?g')"
      using True dg r1 SD SDe Suc.prems(3) by (simp add: size_descendants_Suc)
    have hn1: "has_node g1 n" using Suc.prems(1) has_node_shape[OF s1(2)] by simp
    have s': "adj ?g' = adj g0" "keys ?g' = keys g0"
      using s1 hn1 by (simp_all add: keys_set_data)
    have other: "map_of (node ?g') x = map_of (node g1) x" if "x \<noteq> n" for x
      using that by (simp add: map_of_set_data)
    have u': "\<forall>m. \<not> under n m \<longrightarrow> map_of (node ?g') m = map_of (node g) m"
    proof (intro allI impI)
      fix m assume m: "\<not> under n m"
      then have "m \<noteq> n" by auto
      moreover have "\<forall>c \<in> set ?cs. \<not> under c m"
        using m child_under(1)[OF wf] under_trans by blast
      ultimately show "map_of (node ?g') m = map_of (node g) m"
        using other u1 by simp
    qed
    have e': "exact L g0 ?g' n"
      by (simp add: exact_def map_of_set_data SD)
    have p': "\<forall>m. under n m \<and> has_node g0 m \<longrightarrow> exact L g0 ?g' m \<or> fresh_below g0 ?g' m"
    proof (intro allI impI)
      fix m assume m: "under n m \<and> has_node g0 m"
      show "exact L g0 ?g' m \<or> fresh_below g0 ?g' m"
      proof (cases "m = n")
        case True
        with e' show ?thesis by simp
      next
        case False
        with m child_towards[OF wf] obtain c where c: "c \<in> set ?cs" "under c m" by blast
        have nx: "x \<noteq> n" if "under m x" for x
        proof
          assume "x = n"
          with that m have "m = n" using under_antisym by blast
          with False show False ..
        qed
        from p1[OF c] m have "exact L g0 g1 m \<or> fresh_below g0 g1 m" by blast
        then show ?thesis
        proof
          assume "exact L g0 g1 m"
          with other[OF False] have "exact L g0 ?g' m" by (simp add: exact_def)
          then show ?thesis ..
        next
          assume "fresh_below g0 g1 m"
          then have "fresh_below g0 ?g' m"
            unfolding fresh_below_def using other nx by simp
          then show ?thesis ..
        qed
      qed
    qed
    from r s' u' p' e' show ?thesis by blast
  qed
qed


lemma exact_settled: "exact L g0 g m \<Longrightarrow> settled L g0 g m"
  by (auto simp: exact_def settled_def)

lemma settled_cong:
  "settled L g0 g m \<Longrightarrow> map_of (node g') m = map_of (node g) m \<Longrightarrow> settled L g0 g' m"
  by (simp add: settled_def)

lemma st_okD:
  "st_ok L g0 g \<Longrightarrow> adj g = adj g0"
  "st_ok L g0 g \<Longrightarrow> keys g = keys g0"
  "st_ok L g0 g \<Longrightarrow> has_node g0 m \<Longrightarrow> settled L g0 g m \<or> fresh_below g0 g m"
  by (simp_all add: st_ok_def)

lemma parents_under: "a \<in> set (parents n) \<longleftrightarrow> under a n \<and> a \<noteq> n"
  using parents_shorter[of a n] by (auto simp: under_def)

lemma settled_children:
  assumes wf: "wf_tree g0"
    and call: "\<And>c g. c \<in> set (adj g0 n) \<Longrightarrow> st_ok L g0 g \<Longrightarrow>
        \<forall>a \<in> set (parents c). settled L g0 g a \<Longrightarrow>
        \<exists>d g'. size_descendants k g c = Inr ((fst (aggv L g0 c), d), g') \<and>
          st_ok L g0 g' \<and> (\<forall>m. settled L g0 g m \<longrightarrow> settled L g0 g' m)"
  shows "set cs \<subseteq> set (adj g0 n) \<Longrightarrow> st_ok L g0 g \<Longrightarrow>
     \<forall>a \<in> set (n # parents n). settled L g0 g a \<Longrightarrow>
     \<exists>d' g'. sum_children k g cs s d =
            Inr ((s + sum_list (map (\<lambda>c. fst (aggv L g0 c)) cs), d'), g') \<and>
          (cs = [] \<longrightarrow> d' = d) \<and> st_ok L g0 g' \<and>
          (\<forall>m. settled L g0 g m \<longrightarrow> settled L g0 g' m)"
proof (induction cs arbitrary: g s d)
  case Nil
  then show ?case by simp
next
  case (Cons c cs)
  from Cons.prems(1) have cin: "c \<in> set (adj g0 n)" and sub: "set cs \<subseteq> set (adj g0 n)"
    by simp_all
  from wf_tree_edge[OF wf cin] have "parents c \<noteq> []" "n = butlast c" by blast+
  then have pc: "parents c = n # parents n" using parents_Cons[of c] by simp
  from Cons.prems(3) have anc: "\<forall>a \<in> set (parents c). settled L g0 g a" unfolding pc .
  from call[OF cin Cons.prems(2) anc] obtain d1 g1 where
    r1: "size_descendants k g c = Inr ((fst (aggv L g0 c), d1), g1)"
    and ok1: "st_ok L g0 g1"
    and mono1: "\<And>m. settled L g0 g m \<Longrightarrow> settled L g0 g1 m" by blast
  from Cons.prems(3) mono1 have anc1: "\<forall>a \<in> set (n # parents n). settled L g0 g1 a" by blast
  from Cons.IH[OF sub ok1 anc1, of "s + fst (aggv L g0 c)" "d + (1 + d1)"] obtain d' g' where
    r2: "sum_children k g1 cs (s + fst (aggv L g0 c)) (d + (1 + d1)) =
           Inr ((s + fst (aggv L g0 c) + sum_list (map (\<lambda>c. fst (aggv L g0 c)) cs), d'), g')"
    and ok2: "st_ok L g0 g'"
    and mono2: "\<And>m. settled L g0 g1 m \<Longrightarrow> settled L g0 g' m" by blast
  have "sum_children k g (c # cs) s d =
          Inr ((s + sum_list (map (\<lambda>c. fst (aggv L g0 c)) (c # cs)), d'), g')"
    using r1 r2 by (simp add: add.assoc)
  with ok2 mono1 mono2 show ?case by blast
qed


lemma zero_aggregate_children:
  assumes wf: "wf_tree g0" and L: "\<forall>m. has_node g0 m \<longrightarrow> length m < L"
    and paired: "attrs_paired g0" and hn: "has_node g0 n" and z: "fst (aggv L g0 n) = 0"
  shows "sum_list (map (\<lambda>c. fst (aggv L g0 c)) (adj g0 n)) = 0"
proof -
  from hn obtain data where d0: "map_of (node g0) n = Some data"
    by (auto simp: has_node_def)
  note av = aggv_unfold[OF wf L d0]
  show ?thesis
  proof (cases "recompute data")
    case False
    with av z not_recompute[OF False] show ?thesis by simp
  next
    case True
    from paired d0 have "(attr_size data = None) = (attr_descendants data = None)"
      by (simp add: attrs_paired_def)
    with True have "start_s data = 0"
      by (auto simp: recompute_def start_s_def)
    with av True z show ?thesis by simp
  qed
qed

lemma settled_call:
  assumes wf: "wf_tree g0" and L: "\<forall>m. has_node g0 m \<longrightarrow> length m < L"
    and paired: "attrs_paired g0"
  shows "has_node g0 n \<Longrightarrow> deep_enough k g0 n \<Longrightarrow> st_ok L g0 g \<Longrightarrow>
     \<forall>a \<in> set (parents n). settled L g0 g a \<Longrightarrow>
     \<exists>d g'. size_descendants k g n = Inr ((fst (aggv L g0 n), d), g') \<and>
        (fst (aggv L g0 n) \<noteq> 0 \<or> adj g0 n = [] \<longrightarrow> d = snd (aggv L g0 n)) \<and>
        st_ok L g0 g' \<and> settled L g0 g' n \<and> (\<forall>m. settled L g0 g m \<longrightarrow> settled L g0 g' m)"
proof (induction k arbitrary: n g)
  case 0
  with deep_enough_pos show ?case by blast
next
  case (Suc k)
  note hn = Suc.prems(1) and ok = Suc.prems(3) and anc = Suc.prems(4)
  note sh = st_okD(1,2)[OF ok]
  let ?S = "fst (aggv L g0 n)" and ?D = "snd (aggv L g0 n)"
  show ?case
  proof (cases "settled L g0 g n")
    case True
    then obtain d where dg: "map_of (node g) n =
        Some \<lparr>attr_size = Some ?S, attr_descendants = Some d\<rparr>"
      and dd: "?S \<noteq> 0 \<or> adj g0 n = [] \<longrightarrow> d = ?D"
      by (auto simp: settled_def)
    show ?thesis
    proof (cases "?S = 0")
      case False
      then have "size_descendants (Suc k) g n = Inr ((?S, d), g)"
        using dg by (simp add: size_descendants_Suc recompute_def)
      with dd ok True show ?thesis by blast
    next
      case z: True
      have call: "\<exists>d g'. size_descendants k g c = Inr ((fst (aggv L g0 c), d), g') \<and>
          st_ok L g0 g' \<and> (\<forall>m. settled L g0 g m \<longrightarrow> settled L g0 g' m)"
        if "c \<in> set (adj g0 n)" "st_ok L g0 g" "\<forall>a \<in> set (parents c). settled L g0 g a" for c g
        using Suc.IH[OF child_under(3)[OF wf that(1)]
            deep_enough_child[OF wf that(1) Suc.prems(2)] that(2,3)] by blast
      from True anc have anc': "\<forall>a \<in> set (n # parents n). settled L g0 g a" by simp
      from settled_children[OF wf call subset_refl ok anc', of 0 d] obtain d' g1 where
        r1: "sum_children k g (adj g0 n) 0 d =
               Inr ((0 + sum_list (map (\<lambda>c. fst (aggv L g0 c)) (adj g0 n)), d'), g1)"
        and e1: "adj g0 n = [] \<longrightarrow> d' = d"
        and ok1: "st_ok L g0 g1"
        and mono1: "\<And>m. settled L g0 g m \<Longrightarrow> settled L g0 g1 m" by blast
      from zero_aggregate_children[OF wf L paired hn z]
      have r1': "sum_children k g (adj g0 n) 0 d = Inr ((0, d'), g1)" using r1 by simp
      let ?g' = "set_data n 0 d' g1"
      have r: "size_descendants (Suc k) g n = Inr ((?S, d'), ?g')"
        using dg z r1' sh by (simp add: size_descendants_Suc recompute_def start_s_def start_d_def)
      have dcond: "?S \<noteq> 0 \<or> adj g0 n = [] \<longrightarrow> d' = ?D" using z e1 dd by simp
      note sh1 = st_okD(1,2)[OF ok1]
      have hn1: "has_node g1 n" using hn has_node_shape[OF sh1(2)] by simp
      have other: "map_of (node ?g') x = map_of (node g1) x" if "x \<noteq> n" for x
        using that by (simp add: map_of_set_data)
      have sn: "settled L g0 ?g' n"
        unfolding settled_def using z dcond by (simp add: map_of_set_data)
      have mono': "settled L g0 ?g' m" if "settled L g0 g1 m" for m
        using that sn other[of m] by (cases "m = n") (auto intro: settled_cong)
      have "settled L g0 ?g' m \<or> fresh_below g0 ?g' m" if m: "has_node g0 m" for m
      proof (cases "settled L g0 g1 m")
        case True
        then show ?thesis using mono' by blast
      next
        case False
        with st_okD(3)[OF ok1 m] have fb: "fresh_below g0 g1 m" by blast
        have "x \<noteq> n" if "under m x" for x
        proof
          assume "x = n"
          with that have "m = n \<or> m \<in> set (parents n)" by (auto simp: under_def)
          with anc' have "settled L g0 g m" by auto
          with mono1 False show False by blast
        qed
        with fb other have "fresh_below g0 ?g' m" by (simp add: fresh_below_def)
        then show ?thesis ..
      qed
      then have ok': "st_ok L g0 ?g'"
        unfolding st_ok_def using sh1 hn1 by (simp add: keys_set_data)
      from r dcond ok' sn mono1 mono' show ?thesis by blast
    qed
  next
    case False
    with st_okD(3)[OF ok hn] have fb: "fresh_below g0 g n" by blast
    from fresh_call[OF wf L hn Suc.prems(2) sh fb] obtain g' where
      r: "size_descendants (Suc k) g n = Inr (aggv L g0 n, g')"
      and sh': "adj g' = adj g0" "keys g' = keys g0"
      and u: "\<And>m. \<not> under n m \<Longrightarrow> map_of (node g') m = map_of (node g) m"
      and p: "\<And>m. under n m \<Longrightarrow> has_node g0 m \<Longrightarrow> exact L g0 g' m \<or> fresh_below g0 g' m"
      and e: "exact L g0 g' n" by blast
    have r': "size_descendants (Suc k) g n = Inr ((?S, ?D), g')" using r by simp
    have mono: "settled L g0 g' m" if s: "settled L g0 g m" for m
    proof (cases "under n m")
      case False
      from settled_cong[OF s u[OF False]] show ?thesis .
    next
      case True
      from s have "has_node g m" by (auto simp: settled_def has_node_def)
      then have "has_node g0 m" using has_node_shape[OF sh(2)] by simp
      from p[OF True this] show ?thesis
      proof
        assume "exact L g0 g' m" then show ?thesis by (rule exact_settled)
      next
        assume "fresh_below g0 g' m"
        then have "map_of (node g') m = map_of (node g0) m" by (simp add: fresh_below_def)
        also from fb True have "\<dots> = map_of (node g) m" by (simp add: fresh_below_def)
        finally show ?thesis by (rule settled_cong[OF s])
      qed
    qed
    have "settled L g0 g' m \<or> fresh_below g0 g' m" if m: "has_node g0 m" for m
    proof (cases "under n m")
      case True
      from p[OF True m] exact_settled show ?thesis by blast
    next
      case nu: False
      show ?thesis
      proof (cases "settled L g0 g m")
        case True
        then show ?thesis using mono by blast
      next
        case False
        with st_okD(3)[OF ok m] have fbm: "fresh_below g0 g m" by blast
        have "map_of (node g') x = map_of (node g0) x" if x: "under m x" for x
        proof (cases "under n x")
          case True
          from under_comparable[OF True x] nu have "under m n" by blast
          moreover from nu have "m \<noteq> n" by auto
          ultimately have "m \<in> set (parents n)" by (simp add: parents_under)
          with anc False show ?thesis by blast
        next
          case False
          from u[OF False] fbm x show ?thesis by (simp add: fresh_below_def)
        qed
        then have "fresh_below g0 g' m" by (simp add: fresh_below_def)
        then show ?thesis ..
      qed
    qed
    then have ok': "st_ok L g0 g'" unfolding st_ok_def using sh' by simp
    from r' ok' exact_settled[OF e] mono show ?thesis by blast
  qed
qed
section \<open>The aggregates of the tree as built\<close>


lemma built_lengths:
  assumes "\<forall>p \<in> set (map fst m). length p < L"
  shows "\<forall>n. has_node (sizes_to_graph m) n \<longrightarrow> length n < L"
proof (intro allI impI)
  fix n assume "has_node (sizes_to_graph m) n"
  then obtain p where p: "p \<in> set (map fst m)" "n \<in> set (p # parents p)"
    by (auto simp: has_node_built nodes_of_def)
  then have "length n \<le> length p" using parents_shorter[of n p] by auto
  with assms p(1) show "length n < L" by fastforce
qed

lemma built_deep_enough:
  "\<forall>p \<in> set (map fst m). length p < L \<Longrightarrow> deep_enough L (sizes_to_graph m) n"
  using built_lengths[of m L] by (rule deep_enough_global)

lemma built_data:
  assumes "has_node (sizes_to_graph m) n"
  shows "map_of (node (sizes_to_graph m)) n = Some (record_data (map_of (rev m) n))"
    "map_of (rev m) n = None \<Longrightarrow> adj (sizes_to_graph m) n \<noteq> []"
  using sizes_to_graph_built(2)[of m] assms unfolding data_ok_def by blast+

lemma built_paired: "attrs_paired (sizes_to_graph m)"
  unfolding attrs_paired_def
proof (intro allI impI)
  fix n data assume d: "map_of (node (sizes_to_graph m)) n = Some data"
  then have "has_node (sizes_to_graph m) n" by (simp add: has_node_def)
  from built_data(1)[OF this] d have "data = record_data (map_of (rev m) n)" by simp
  then show "(attr_size data = None) = (attr_descendants data = None)"
    by (simp add: record_data_def split: option.splits)
qed

lemma fresh_below_refl: "fresh_below g g n"
  by (simp add: fresh_below_def)

lemma st_ok_refl: "st_ok L g g"
  by (simp add: st_ok_def fresh_below_refl)

lemma built_first_call:
  assumes L: "\<forall>p \<in> set (map fst m). length p < limit" and hn: "has_node (sizes_to_graph m) n"
  shows "\<exists>g'. size_descendants limit (sizes_to_graph m) n =
            Inr (aggv limit (sizes_to_graph m) n, g') \<and>
          adj g' = adj (sizes_to_graph m) \<and> exact limit (sizes_to_graph m) g' n"
  using fresh_call[OF sizes_to_graph_built(1) built_lengths[OF L] hn built_deep_enough[OF L]
      refl refl fresh_below_refl] by blast

lemma built_sd_pair:
  assumes L: "\<forall>p \<in> set (map fst m). length p < limit" and hn: "has_node (sizes_to_graph m) n"
  shows "sd_pair limit (sizes_to_graph m) n = aggv limit (sizes_to_graph m) n"
  using built_first_call[OF assms] by (auto simp: sd_pair_def)

text \<open>
  Claim C6, as amended. On the tree as built, with a recursion limit above the length of
  every path, the first call of \<^verbatim>\<open>size_descendants\<close> at a node returns: for a node
  without successors its own size and \<open>0\<close>; for a node with successors that is no record
  of the manifest, or a record of size \<open>0\<close>, the sums over its successors of their size
  and of one plus their descendants; for a record of nonzero size its own size and \<open>0\<close>,
  whatever successors it has. A second call returns the same pair when the size is not
  \<open>0\<close> or the node has no successors.
\<close>

theorem aggregate_of_built_tree:
  assumes L: "\<forall>p \<in> set (map fst m). length p < limit" and hn: "has_node (sizes_to_graph m) n"
  shows "\<exists>s d g'. size_descendants limit (sizes_to_graph m) n = Inr ((s, d), g') \<and>
      (successors (sizes_to_graph m) n = [] \<longrightarrow> map_of (rev m) n = Some s \<and> d = 0) \<and>
      (successors (sizes_to_graph m) n \<noteq> [] \<and>
         (map_of (rev m) n = None \<or> map_of (rev m) n = Some 0) \<longrightarrow>
           s = sum_list (map (\<lambda>c. fst (sd_pair limit (sizes_to_graph m) c))
                   (successors (sizes_to_graph m) n)) \<and>
           d = sum_list (map (\<lambda>c. 1 + snd (sd_pair limit (sizes_to_graph m) c))
                   (successors (sizes_to_graph m) n))) \<and>
      (\<forall>x. map_of (rev m) n = Some x \<and> x \<noteq> 0 \<longrightarrow> s = x \<and> d = 0) \<and>
      (s \<noteq> 0 \<or> successors (sizes_to_graph m) n = [] \<longrightarrow>
         size_descendants limit g' n = Inr ((s, d), g'))"
proof -
  let ?g = "sizes_to_graph m"
  note wf = sizes_to_graph_built(1)[of m]
  obtain s d where sd: "aggv limit ?g n = (s, d)" by (cases "aggv limit ?g n")
  from built_first_call[OF L hn] sd obtain g' where
    r: "size_descendants limit ?g n = Inr ((s, d), g')"
    and sh: "adj g' = adj ?g"
    and ex: "map_of (node g') n = Some \<lparr>attr_size = Some s, attr_descendants = Some d\<rparr>"
    by (auto simp: exact_def)
  let ?data = "record_data (map_of (rev m) n)"
  note dat = built_data(1)[OF hn]
  note av = aggv_unfold[OF wf built_lengths[OF L] dat, unfolded sd]
  have ch: "sd_pair limit ?g c = aggv limit ?g c" if "c \<in> set (adj ?g n)" for c
    using built_sd_pair[OF L child_under(3)[OF wf that]] .
  have leaf: "map_of (rev m) n = Some s \<and> d = 0" if "successors ?g n = []"
  proof -
    from that built_data(2)[OF hn] obtain x where x: "map_of (rev m) n = Some x"
      by (auto simp: successors_def)
    with av that show ?thesis
      by (auto simp: record_data_def recompute_def start_s_def start_d_def successors_def
          split: if_splits)
  qed
  have dir: "s = sum_list (map (\<lambda>c. fst (sd_pair limit ?g c)) (successors ?g n)) \<and>
             d = sum_list (map (\<lambda>c. 1 + snd (sd_pair limit ?g c)) (successors ?g n))"
    if "map_of (rev m) n = None \<or> map_of (rev m) n = Some 0"
  proof -
    from that have "recompute ?data" "start_s ?data = 0" "start_d ?data = 0"
      by (auto simp: record_data_def recompute_def start_s_def start_d_def)
    with av have "s = sum_list (map (\<lambda>c. fst (aggv limit ?g c)) (adj ?g n))"
      "d = sum_list (map (\<lambda>c. 1 + snd (aggv limit ?g c)) (adj ?g n))" by simp_all
    moreover have "map (\<lambda>c. fst (sd_pair limit ?g c)) (adj ?g n) =
        map (\<lambda>c. fst (aggv limit ?g c)) (adj ?g n)"
      by (rule map_cong) (simp_all add: ch)
    moreover have "map (\<lambda>c. 1 + snd (sd_pair limit ?g c)) (adj ?g n) =
        map (\<lambda>c. 1 + snd (aggv limit ?g c)) (adj ?g n)"
      by (rule map_cong) (simp_all add: ch)
    ultimately show ?thesis unfolding successors_def by (simp only:)
  qed
  have own: "s = x \<and> d = 0" if "map_of (rev m) n = Some x \<and> x \<noteq> 0" for x
    using av that by (simp add: record_data_def recompute_def)
  have again: "size_descendants limit g' n = Inr ((s, d), g')"
    if "s \<noteq> 0 \<or> successors ?g n = []"
  proof -
    from built_deep_enough[OF L] hn have "0 < limit" by (rule deep_enough_pos[rotated])
    then obtain k where k: "limit = Suc k" by (cases limit) auto
    show ?thesis
    proof (cases "s = 0")
      case False
      then show ?thesis unfolding k using ex by (simp add: size_descendants_Suc recompute_def)
    next
      case True
      with that have e: "adj g' n = []" by (simp add: successors_def sh)
      have "set_data n 0 d g' = g'"
        using ex True by (simp add: set_data_def update_triv)
      with True e show ?thesis unfolding k using ex
        by (simp add: size_descendants_Suc recompute_def start_s_def start_d_def)
    qed
  qed
  from r leaf dir own again show ?thesis by blast
qed


theorem aggregate_of_built_tree_witness:
  "map_sum id fst (size_descendants 5
      (sizes_to_graph [([''a'', ''x''], 50), ([''a'', ''y''], 70), ([''b''], 1)]) [''a''])
    = Inr (sum_list (map (\<lambda>c. fst (sd_pair 5
          (sizes_to_graph [([''a'', ''x''], 50), ([''a'', ''y''], 70), ([''b''], 1)]) c))
          [[''a'', ''x''], [''a'', ''y'']]),
        sum_list (map (\<lambda>c. 1 + snd (sd_pair 5
          (sizes_to_graph [([''a'', ''x''], 50), ([''a'', ''y''], 70), ([''b''], 1)]) c))
          [[''a'', ''x''], [''a'', ''y'']]))"
proof -
  let ?m = "[([''a'', ''x''], 50), ([''a'', ''y''], 70), ([''b''], 1 :: int)]"
  have L: "\<forall>p \<in> set (map fst ?m). length p < 5" by simp
  have hn: "has_node (sizes_to_graph ?m) [''a'']" by code_simp
  have su: "successors (sizes_to_graph ?m) [''a''] = [[''a'', ''x''], [''a'', ''y'']]"
    by code_simp
  have no: "map_of (rev ?m) [''a''] = None" by simp
  from aggregate_of_built_tree[OF L hn] obtain s d g' where
    r: "size_descendants 5 (sizes_to_graph ?m) [''a''] = Inr ((s, d), g')"
    and dir: "successors (sizes_to_graph ?m) [''a''] \<noteq> [] \<and>
         (map_of (rev ?m) [''a''] = None \<or> map_of (rev ?m) [''a''] = Some 0) \<longrightarrow>
           s = sum_list (map (\<lambda>c. fst (sd_pair 5 (sizes_to_graph ?m) c))
                   (successors (sizes_to_graph ?m) [''a''])) \<and>
           d = sum_list (map (\<lambda>c. 1 + snd (sd_pair 5 (sizes_to_graph ?m) c))
                   (successors (sizes_to_graph ?m) [''a'']))"
    by blast
  from dir no have "s = sum_list (map (\<lambda>c. fst (sd_pair 5 (sizes_to_graph ?m) c))
                   [[''a'', ''x''], [''a'', ''y'']])"
     "d = sum_list (map (\<lambda>c. 1 + snd (sd_pair 5 (sizes_to_graph ?m) c))
                   [[''a'', ''x''], [''a'', ''y'']])"
    unfolding su by blast+
  with r show ?thesis by (simp only: map_sum.simps id_apply fst_conv)
qed

text \<open>
  C6 fails for a directory that is itself a record of nonzero size: its own size is
  taken as resolved, and its successor is not summed.
\<close>

theorem aggregate_directory_record_counterexample:
  "successors (sizes_to_graph [([''a'', ''b''], 5), ([''a''], 10)]) [''a''] = [[''a'', ''b'']] \<and>
   map_sum id fst (size_descendants 5 (sizes_to_graph [([''a'', ''b''], 5), ([''a''], 10)])
      [''a'', ''b'']) = Inr (5, 0) \<and>
   map_sum id fst (size_descendants 5 (sizes_to_graph [([''a'', ''b''], 5), ([''a''], 10)])
      [''a'']) = Inr (10, 0)"
  by code_simp

text \<open>
  A second call at a directory of aggregate size \<open>0\<close> starts from the cached count and
  adds the successors again: \<open>2\<close> descendants become \<open>4\<close>.
\<close>

lemma repeated_call_zero_size:
  "map_sum id fst (size_descendants 5 (sizes_to_graph [([''d'', ''e''], 0), ([''d'', ''f''], 0)])
      [''d'']) = Inr (0, 2) \<and>
   map_sum id fst (size_descendants 5
      (snd (projr (size_descendants 5
         (sizes_to_graph [([''d'', ''e''], 0), ([''d'', ''f''], 0)]) [''d''])))
      [''d'']) = Inr (0, 4)"
  by code_simp
section \<open>The traversal is the walk\<close>


lemma yield_abort_if_settled:
  assumes wf: "wf_tree g0" and L: "\<forall>m. has_node g0 m \<longrightarrow> length m < L"
    and paired: "attrs_paired g0"
    and dens: "\<not> fst (aggv L g0 n) < max_zip_bytes \<Longrightarrow>
        \<exists>x. density (snd (aggv L g0 n)) (fst (aggv L g0 n)) = Inr x \<and> fst (aggv L g0 n) \<noteq> 0"
    and hn: "has_node g0 n" and ok: "st_ok L g0 g"
    and anc: "\<forall>a \<in> set (parents n). settled L g0 g a"
  shows "\<exists>g'. yield_abort_if L max_zip_bytes mf g n =
            Inr (decide L g0 max_zip_bytes mf n, g') \<and>
          st_ok L g0 g' \<and> settled L g0 g' n \<and> (\<forall>m. settled L g0 g m \<longrightarrow> settled L g0 g' m)"
proof -
  from settled_call[OF wf L paired hn deep_enough_global[OF L] ok anc] obtain d g' where
    r: "size_descendants L g n = Inr ((fst (aggv L g0 n), d), g')"
    and dd: "fst (aggv L g0 n) \<noteq> 0 \<or> adj g0 n = [] \<longrightarrow> d = snd (aggv L g0 n)"
    and rest: "st_ok L g0 g'" "settled L g0 g' n" "\<forall>m. settled L g0 g m \<longrightarrow> settled L g0 g' m"
    by blast
  have "yield_abort_if L max_zip_bytes mf g n = Inr (decide L g0 max_zip_bytes mf n, g')"
  proof (cases "fst (aggv L g0 n) < max_zip_bytes")
    case True
    with r show ?thesis by (simp add: yield_abort_if_def decide_def Let_def split_beta)
  next
    case False
    from dens[OF False] obtain x where
      x: "density (snd (aggv L g0 n)) (fst (aggv L g0 n)) = Inr x" and nz: "fst (aggv L g0 n) \<noteq> 0"
      by blast
    from nz dd have "d = snd (aggv L g0 n)" by simp
    with r False x show ?thesis
      by (simp add: yield_abort_if_def decide_def Let_def low_density_def split_beta)
  qed
  with rest show ?thesis by blast
qed

lemma node_descendants_settled:
  assumes wf: "wf_tree g0" and L: "\<forall>m. has_node g0 m \<longrightarrow> length m < L"
    and paired: "attrs_paired g0"
    and hn: "has_node g0 n" and ok: "st_ok L g0 g"
    and anc: "\<forall>a \<in> set (parents n). settled L g0 g a"
  shows "\<exists>d g'. node_descendants L g n = Inr (d, g') \<and>
          st_ok L g0 g' \<and> (\<forall>m. settled L g0 g m \<longrightarrow> settled L g0 g' m)"
proof -
  from settled_call[OF wf L paired hn deep_enough_global[OF L] ok anc] obtain d g' where
    "size_descendants L g n = Inr ((fst (aggv L g0 n), d), g')"
    and rest: "st_ok L g0 g'" "\<forall>m. settled L g0 g m \<longrightarrow> settled L g0 g' m"
    by blast
  then have "node_descendants L g n = Inr (d, g')" by (simp add: node_descendants_def)
  with rest show ?thesis by blast
qed

lemma dfs_loop_step:
  assumes "yai g n = Inr ((y, a), g1)"
  shows "dfs_loop limit yai g (rest @ [n]) out =
     (if a then
        (case node_descendants limit g1 n of
           Inl e \<Rightarrow> Some (if y then out @ [(n, g1)] else out, Inl e)
         | Inr (_, g2) \<Rightarrow> dfs_loop limit yai g2 rest (if y then out @ [(n, g1)] else out))
      else if \<not> has_node g1 n then Some (if y then out @ [(n, g1)] else out, Inl NetworkXError)
      else dfs_loop limit yai g1 (rest @ rev (sort (successors g1 n)))
             (if y then out @ [(n, g1)] else out))"
  by (subst dfs_loop.simps) (simp add: assms Let_def split: sum.splits)

lemma dfs_loop_Nil: "dfs_loop limit yai g [] out = Some (out, Inr g)"
  by (subst dfs_loop.simps) simp

lemma child_parents:
  assumes "wf_tree g" "c \<in> set (adj g n)"
  shows "parents c = n # parents n"
proof -
  from wf_tree_edge[OF assms] have "parents c \<noteq> []" "n = butlast c" by blast+
  then show ?thesis using parents_Cons[of c] by simp
qed

lemma run_ofI:
  "st_ok L g0 g' \<Longrightarrow> (\<And>m. settled L g0 g m \<Longrightarrow> settled L g0 g' m) \<Longrightarrow>
   map fst ys = nodes \<Longrightarrow> (\<And>n gs. (n, gs) \<in> set ys \<Longrightarrow> settled L g0 gs n) \<Longrightarrow>
   (\<And>rest out. dfs_loop limit yai g (rest @ stack) out = dfs_loop limit yai g' rest (out @ ys)) \<Longrightarrow>
   run_of L g0 limit yai g stack nodes"
  unfolding run_of_def by blast

lemma dfs_loop_children:
  assumes wf: "wf_tree g0"
    and node: "\<And>c g. c \<in> set (adj g0 n) \<Longrightarrow> st_ok L g0 g \<Longrightarrow>
        \<forall>a \<in> set (parents c). settled L g0 g a \<Longrightarrow>
        run_of L g0 limit yai g [c] (walk dec g0 k c)"
  shows "set cs \<subseteq> set (adj g0 n) \<Longrightarrow> st_ok L g0 g \<Longrightarrow>
     \<forall>a \<in> set (n # parents n). settled L g0 g a \<Longrightarrow>
     run_of L g0 limit yai g (rev cs) (concat (map (walk dec g0 k) cs))"
proof (induction cs arbitrary: g)
  case Nil
  show ?case
    by (rule run_ofI[where g' = g and ys = "[]"]) (simp_all add: Nil.prems)
next
  case (Cons c cs)
  from Cons.prems(1) have cin: "c \<in> set (adj g0 n)" and sub: "set cs \<subseteq> set (adj g0 n)"
    by simp_all
  from Cons.prems(3) have anc: "\<forall>a \<in> set (parents c). settled L g0 g a"
    unfolding child_parents[OF wf cin] .
  from node[OF cin Cons.prems(2) anc] obtain g1 ys1 where
    ok1: "st_ok L g0 g1" and mono1: "\<And>m. settled L g0 g m \<Longrightarrow> settled L g0 g1 m"
    and n1: "map fst ys1 = walk dec g0 k c"
    and s1: "\<And>n gs. (n, gs) \<in> set ys1 \<Longrightarrow> settled L g0 gs n"
    and eq1: "\<And>rest out. dfs_loop limit yai g (rest @ [c]) out =
             dfs_loop limit yai g1 rest (out @ ys1)" unfolding run_of_def by blast
  from Cons.prems(3) mono1 have anc1: "\<forall>a \<in> set (n # parents n). settled L g0 g1 a" by blast
  from Cons.IH[OF sub ok1 anc1] obtain g' ys2 where
    ok2: "st_ok L g0 g'" and mono2: "\<And>m. settled L g0 g1 m \<Longrightarrow> settled L g0 g' m"
    and n2: "map fst ys2 = concat (map (walk dec g0 k) cs)"
    and s2: "\<And>n gs. (n, gs) \<in> set ys2 \<Longrightarrow> settled L g0 gs n"
    and eq2: "\<And>rest out. dfs_loop limit yai g1 (rest @ rev cs) out =
          dfs_loop limit yai g' rest (out @ ys2)" unfolding run_of_def by blast
  show ?case
  proof (rule run_ofI[where g' = g' and ys = "ys1 @ ys2"])
    show "st_ok L g0 g'" by fact
    show "settled L g0 g' m" if "settled L g0 g m" for m using that mono1 mono2 by blast
    show "map fst (ys1 @ ys2) = concat (map (walk dec g0 k) (c # cs))" using n1 n2 by simp
    show "settled L g0 gs n" if "(n, gs) \<in> set (ys1 @ ys2)" for n gs using that s1 s2 by auto
    show "dfs_loop limit yai g (rest @ rev (c # cs)) out =
          dfs_loop limit yai g' rest (out @ ys1 @ ys2)" for rest out
      using eq1[of "rest @ rev cs" out] eq2[of rest "out @ ys1"] by simp
  qed
qed

lemma dfs_loop_walk:
  assumes wf: "wf_tree g0"
    and yai: "\<And>n g. has_node g0 n \<Longrightarrow> st_ok L g0 g \<Longrightarrow>
        \<forall>a \<in> set (parents n). settled L g0 g a \<Longrightarrow>
        \<exists>g'. yai g n = Inr (dec n, g') \<and> st_ok L g0 g' \<and> settled L g0 g' n \<and>
          (\<forall>m. settled L g0 g m \<longrightarrow> settled L g0 g' m)"
    and nd: "\<And>n g. has_node g0 n \<Longrightarrow> st_ok L g0 g \<Longrightarrow>
        \<forall>a \<in> set (parents n). settled L g0 g a \<Longrightarrow>
        \<exists>d g'. node_descendants limit g n = Inr (d, g') \<and> st_ok L g0 g' \<and>
          (\<forall>m. settled L g0 g m \<longrightarrow> settled L g0 g' m)"
  shows "has_node g0 n \<Longrightarrow> deep_enough k g0 n \<Longrightarrow> st_ok L g0 g \<Longrightarrow>
     \<forall>a \<in> set (parents n). settled L g0 g a \<Longrightarrow>
     run_of L g0 limit yai g [n] (walk dec g0 k n)"
proof (induction k arbitrary: n g)
  case 0
  with deep_enough_pos show ?case by blast
next
  case (Suc k)
  note hn = Suc.prems(1) and ok = Suc.prems(3) and anc = Suc.prems(4)
  obtain y a where ya: "dec n = (y, a)" by (cases "dec n")
  from yai[OF hn ok anc] ya obtain g1 where
    r1: "yai g n = Inr ((y, a), g1)" and ok1: "st_ok L g0 g1" and sn1: "settled L g0 g1 n"
    and mono1: "\<And>m. settled L g0 g m \<Longrightarrow> settled L g0 g1 m" by auto
  from anc mono1 have anc1: "\<forall>a \<in> set (parents n). settled L g0 g1 a" by blast
  let ?o = "if y then [(n, g1)] else []"
  have step: "dfs_loop limit yai g (rest @ [n]) out =
     (if a then
        (case node_descendants limit g1 n of
           Inl e \<Rightarrow> Some (out @ ?o, Inl e)
         | Inr (_, g2) \<Rightarrow> dfs_loop limit yai g2 rest (out @ ?o))
      else if \<not> has_node g1 n then Some (out @ ?o, Inl NetworkXError)
      else dfs_loop limit yai g1 (rest @ rev (sort (successors g1 n))) (out @ ?o))" for rest out
    using dfs_loop_step[of yai g n y a g1 limit rest out, OF r1]
    by (cases y) (simp_all split: sum.splits)
  show ?case
  proof (cases a)
    case True
    from nd[OF hn ok1 anc1] obtain d g2 where
      r2: "node_descendants limit g1 n = Inr (d, g2)" and ok2: "st_ok L g0 g2"
      and mono2: "\<And>m. settled L g0 g1 m \<Longrightarrow> settled L g0 g2 m" by blast
    show ?thesis
    proof (rule run_ofI[where g' = g2 and ys = ?o])
      show "st_ok L g0 g2" by fact
      show "settled L g0 g2 m" if "settled L g0 g m" for m using that mono1 mono2 by blast
      show "map fst ?o = walk dec g0 (Suc k) n" using ya True by simp
      show "settled L g0 gs x" if "(x, gs) \<in> set ?o" for x gs
        using that sn1 by (auto split: if_splits)
      show "dfs_loop limit yai g (rest @ [n]) out = dfs_loop limit yai g2 rest (out @ ?o)"
        for rest out using step[of rest out] True r2 by simp
    qed
  next
    case False
    have hn1: "has_node g1 n" using hn has_node_shape[OF st_okD(2)[OF ok1]] by simp
    have su: "successors g1 n = adj g0 n" by (simp add: successors_def st_okD(1)[OF ok1])
    have node: "run_of L g0 limit yai g [c] (walk dec g0 k c)"
      if "c \<in> set (adj g0 n)" "st_ok L g0 g" "\<forall>a \<in> set (parents c). settled L g0 g a" for c g
      using Suc.IH[OF child_under(3)[OF wf that(1)]
          deep_enough_child[OF wf that(1) Suc.prems(2)] that(2,3)] .
    from sn1 anc1 have anc1': "\<forall>a \<in> set (n # parents n). settled L g0 g1 a" by simp
    have sub: "set (sort (adj g0 n)) \<subseteq> set (adj g0 n)" by simp
    from dfs_loop_children[OF wf node sub ok1 anc1'] obtain g' ys where
      ok': "st_ok L g0 g'" and mono': "\<And>m. settled L g0 g1 m \<Longrightarrow> settled L g0 g' m"
      and n': "map fst ys = concat (map (walk dec g0 k) (sort (adj g0 n)))"
      and s': "\<And>x gs. (x, gs) \<in> set ys \<Longrightarrow> settled L g0 gs x"
      and eq: "\<And>rest out. dfs_loop limit yai g1 (rest @ rev (sort (adj g0 n))) out =
          dfs_loop limit yai g' rest (out @ ys)"
      unfolding run_of_def by blast
    show ?thesis
    proof (rule run_ofI[where g' = g' and ys = "?o @ ys"])
      show "st_ok L g0 g'" by fact
      show "settled L g0 g' m" if "settled L g0 g m" for m using that mono1 mono' by blast
      show "map fst (?o @ ys) = walk dec g0 (Suc k) n"
        using ya False n' by (simp add: successors_def)
      show "settled L g0 gs x" if "(x, gs) \<in> set (?o @ ys)" for x gs
        using that sn1 s' by (auto split: if_splits)
      show "dfs_loop limit yai g (rest @ [n]) out = dfs_loop limit yai g' rest (out @ ?o @ ys)"
        for rest out
        using step[of rest out] False hn1 su eq[of rest "out @ ?o"] by simp
    qed
  qed
qed



subsection \<open>The order of paths\<close>

lemma less_append_right: "ys \<noteq> [] \<Longrightarrow> xs < xs @ (ys :: 'a :: linorder list)"
  by (induction xs) (auto simp: neq_Nil_conv)

lemma less_append_both:
  "length c = length c' \<Longrightarrow> c < c' \<Longrightarrow> c @ za < c' @ (zb :: 'a :: linorder list)"
  by (induction c c' rule: list_induct2) auto

lemma under_append: "under a m \<Longrightarrow> \<exists>zs. m = a @ zs"
proof (induction m rule: parents.induct)
  case (1 m)
  show ?case
  proof (cases "a = m")
    case True
    then show ?thesis by simp
  next
    case False
    with "1.prems" have pm: "parents m \<noteq> []" by (auto simp: under_def)
    then have c: "\<not> (m = [] \<or> length m = 1 \<and> is_anchor (hd m))"
      by (simp add: parents_Nil_iff)
    from False "1.prems" under_parents[OF pm] have "under a (butlast m)" by simp
    from "1.IH"[OF c this] obtain zs where "butlast m = a @ zs" ..
    moreover from pm have "m = butlast m @ [last m]" using parents_nonempty by simp
    ultimately have "m = a @ (zs @ [last m])" by simp
    then show ?thesis ..
  qed
qed

lemma under_less:
  assumes "under a m" "a \<noteq> m"
  shows "a < m"
proof -
  from under_append[OF assms(1)] obtain zs where m: "m = a @ zs" ..
  with assms(2) have "zs \<noteq> []" by auto
  then show ?thesis unfolding m by (rule less_append_right)
qed

lemma sibling_subtrees_less:
  assumes wf: "wf_tree g" and c: "c \<in> set (adj g n)" and c': "c' \<in> set (adj g n)"
    and lt: "c < c'" and x: "under c x" and y: "under c' y"
  shows "x < y"
proof -
  from under_append[OF x] under_append[OF y] obtain za zb where xy: "x = c @ za" "y = c' @ zb"
    by blast
  have "length c = length c'"
    using child_under(5)[OF wf c] child_under(5)[OF wf c'] by simp
  from less_append_both[OF this lt] show ?thesis unfolding xy .
qed

subsection \<open>The walk\<close>

lemma walk_Suc_set:
  "set (walk dec g (Suc k) n) =
     (if fst (dec n) then {n} else {}) \<union>
     (if snd (dec n) then {} else (\<Union>c \<in> set (adj g n). set (walk dec g k c)))"
  by (simp add: successors_def)

lemma walk_under:
  assumes wf: "wf_tree g"
  shows "m \<in> set (walk dec g k n) \<Longrightarrow> under n m"
proof (induction k arbitrary: n)
  case 0
  then show ?case by simp
next
  case (Suc k)
  show ?case
  proof (cases "m = n")
    case True
    then show ?thesis by simp
  next
    case False
    with Suc.prems obtain c where c: "c \<in> set (adj g n)" and m: "m \<in> set (walk dec g k c)"
      unfolding walk_Suc_set by (auto split: if_splits)
    from Suc.IH[OF m] child_under(1)[OF wf c] show ?thesis using under_trans by blast
  qed
qed

lemma walk_filter:
  "walk dec g k n = filter (\<lambda>x. fst (dec x)) (walk (\<lambda>x. (True, snd (dec x))) g k n)"
proof (induction k arbitrary: n)
  case 0
  then show ?case by simp
next
  case (Suc k)
  have eq: "walk dec g k = (\<lambda>c. filter (\<lambda>x. fst (dec x)) (walk (\<lambda>x. (True, snd (dec x))) g k c))"
    by (rule ext) (rule Suc.IH)
  show ?case by (simp add: eq filter_concat comp_def)
qed

lemma sorted_wrt_concat_map:
  "sorted_wrt (<) cs \<Longrightarrow> \<forall>c \<in> set cs. sorted_wrt (<) (f c) \<Longrightarrow>
   \<forall>c \<in> set cs. \<forall>c' \<in> set cs. c < c' \<longrightarrow> (\<forall>x \<in> set (f c). \<forall>y \<in> set (f c'). x < y) \<Longrightarrow>
   sorted_wrt (<) (concat (map f cs))"
proof (induction cs)
  case Nil
  then show ?case by simp
next
  case (Cons c cs)
  from Cons.prems have a: "sorted_wrt (<) cs" "\<forall>c \<in> set cs. sorted_wrt (<) (f c)"
    "\<forall>c \<in> set cs. \<forall>c' \<in> set cs. c < c' \<longrightarrow> (\<forall>x \<in> set (f c). \<forall>y \<in> set (f c'). x < y)"
    by simp_all
  have r: "sorted_wrt (<) (concat (map f cs))" using a by (rule Cons.IH)
  have "x < y" if "x \<in> set (f c)" "y \<in> set (concat (map f cs))" for x y
  proof -
    from that(2) obtain c' where c': "c' \<in> set cs" "y \<in> set (f c')" by auto
    with Cons.prems(1) have "c < c'" by simp
    with Cons.prems(3) that(1) c' show ?thesis by simp
  qed
  with r Cons.prems(2) show ?case by (simp add: sorted_wrt_append)
qed

lemma walk_sorted:
  assumes wf: "wf_tree g"
  shows "sorted_wrt (<) (walk dec g k n)"
proof (induction k arbitrary: n)
  case 0
  then show ?case by simp
next
  case (Suc k)
  let ?cs = "sort (adj g n)"
  have scs: "sorted_wrt (<) ?cs"
    using wf_treeD(3)[OF wf, of n] by (simp add: strict_sorted_iff)
  have cross: "\<forall>c \<in> set ?cs. \<forall>c' \<in> set ?cs. c < c' \<longrightarrow>
      (\<forall>x \<in> set (walk dec g k c). \<forall>y \<in> set (walk dec g k c'). x < y)"
  proof (intro ballI impI)
    fix c c' x y
    assume "c \<in> set ?cs" "c' \<in> set ?cs" "c < c'"
      and "x \<in> set (walk dec g k c)" "y \<in> set (walk dec g k c')"
    then show "x < y"
      using sibling_subtrees_less[OF wf, of c n c' x y] walk_under[OF wf] by simp
  qed
  have each: "\<forall>c \<in> set ?cs. sorted_wrt (<) (walk dec g k c)" using Suc.IH by blast
  have rest: "sorted_wrt (<) (concat (map (walk dec g k) ?cs))"
    using scs each cross by (rule sorted_wrt_concat_map)
  have first: "n < y" if "y \<in> set (concat (map (walk dec g k) ?cs))" for y
  proof -
    from that obtain c where c: "c \<in> set (adj g n)" and y: "y \<in> set (walk dec g k c)" by auto
    from walk_under[OF wf y] have uy: "under c y" .
    with child_under(1)[OF wf c] have "under n y" using under_trans by blast
    moreover have "y \<noteq> n"
      using under_length[OF uy] child_under(5)[OF wf c] by auto
    ultimately show ?thesis by (rule under_less[OF _ not_sym])
  qed
  show ?case
    unfolding walk.simps successors_def using rest first by (simp add: sorted_wrt_append)
qed

lemma wf_tree_ancestor:
  assumes wf: "wf_tree g" and m: "has_node g m" and a: "under a m"
  shows "has_node g a"
proof (cases "a = m")
  case True
  with m show ?thesis by simp
next
  case False
  with a have am: "a \<in> set (parents m)" by (simp add: under_def)
  have l: "\<forall>v. has_node g v \<and> length v < Suc (length m) \<longrightarrow> linked g v"
    using wf by (simp add: wf_tree_def)
  show ?thesis
    by (rule ancestors_present[OF wf_treeD(1)[OF wf] l m _ am]) simp
qed

text \<open>The nodes that the walk reaches when every node is yielded.\<close>

lemma visit_iff:
  assumes wf: "wf_tree g"
  shows "has_node g n \<Longrightarrow> deep_enough k g n \<Longrightarrow>
     m \<in> set (walk (\<lambda>x. (True, ab x)) g k n) \<longleftrightarrow>
       has_node g m \<and> under n m \<and> (\<forall>a. under n a \<and> under a m \<and> a \<noteq> m \<longrightarrow> \<not> ab a)"
proof (induction k arbitrary: n)
  case 0
  with deep_enough_pos show ?case by blast
next
  case (Suc k)
  note hn = Suc.prems(1)
  let ?W = "\<lambda>k c. m \<in> set (walk (\<lambda>x. (True, ab x)) g k c)"
  let ?R = "\<lambda>n. has_node g m \<and> under n m \<and> (\<forall>a. under n a \<and> under a m \<and> a \<noteq> m \<longrightarrow> \<not> ab a)"
  have IH: "?W k c \<longleftrightarrow> ?R c" if "c \<in> set (adj g n)" for c
    using Suc.IH[OF child_under(3)[OF wf that] deep_enough_child[OF wf that Suc.prems(2)]] .
  show ?case
  proof (cases "m = n")
    case True
    have "a = n" if "under n a \<and> under a n" for a
      using that under_antisym by blast
    then have "?R n" unfolding True using hn under_refl by blast
    moreover have "?W (Suc k) n" unfolding walk_Suc_set True by simp
    ultimately show ?thesis by blast
  next
    case False
    have w: "?W (Suc k) n \<longleftrightarrow> (\<not> ab n \<and> (\<exists>c \<in> set (adj g n). ?W k c))"
      unfolding walk_Suc_set using False by simp
    show ?thesis
    proof
      assume "?W (Suc k) n"
      with w obtain c where nab: "\<not> ab n" and c: "c \<in> set (adj g n)" and wc: "?W k c" by blast
      from IH[OF c] wc have rc: "?R c" by blast
      have un: "under n m" using child_under(1)[OF wf c] rc under_trans by blast
      have "\<not> ab a" if a: "under n a \<and> under a m \<and> a \<noteq> m" for a
      proof (cases "a = n")
        case True
        with nab show ?thesis by simp
      next
        case an: False
        from rc a wf_tree_ancestor[OF wf] have "has_node g a" by blast
        from child_towards[OF wf this] a an obtain c' where
          c': "c' \<in> set (adj g n)" "under c' a" by blast
        with a have "under c' m" using under_trans by blast
        from siblings_disjoint[OF wf c c'(1) _ this] rc have "c = c'" by blast
        with c'(2) rc a show ?thesis by blast
      qed
      with rc un show "?R n" by blast
    next
      assume r: "?R n"
      with False have nab: "\<not> ab n" using under_refl by blast
      from r have hm: "has_node g m" and um: "under n m" by blast+
      from child_towards[OF wf hm um False] obtain c where
        c: "c \<in> set (adj g n)" "under c m" by blast
      have "?R c"
      proof (intro conjI allI impI)
        show "has_node g m" by fact
        show "under c m" by fact
        fix a assume a: "under c a \<and> under a m \<and> a \<noteq> m"
        then have "under n a" using child_under(1)[OF wf c(1)] under_trans by blast
        with r a show "\<not> ab a" by blast
      qed
      with IH[OF c(1)] have "?W k c" by blast
      with w nab c(1) show "?W (Suc k) n" by blast
    qed
  qed
qed

section \<open>Runs of the selection on a built tree\<close>

lemma to_double_zero [simp]: "to_double 0 = Finite 0"
  by (simp add: to_double_def)

lemma density_zero: "density d 0 \<noteq> Inr x"
  by (auto simp: density_def int_truediv_def float_div_def split: sum.splits)

lemma densities_definedD:
  assumes L: "\<forall>p \<in> set (map fst m). length p < limit"
    and dd: "densities_defined limit (sizes_to_graph m) max_zip_bytes"
    and hn: "has_node (sizes_to_graph m) n"
    and ge: "\<not> fst (aggv limit (sizes_to_graph m) n) < max_zip_bytes"
  shows "\<exists>x. density (snd (aggv limit (sizes_to_graph m) n)) (fst (aggv limit (sizes_to_graph m) n)) = Inr x
           \<and> fst (aggv limit (sizes_to_graph m) n) \<noteq> 0"
proof -
  let ?g = "sizes_to_graph m"
  from hn have "n \<in> set (keys ?g)" by (simp add: has_node_iff)
  with dd have "case sd_pair limit ?g n of
                  (sz, desc) \<Rightarrow> if sz < max_zip_bytes then True
                    else (case density desc sz of Inl e \<Rightarrow> False | Inr x \<Rightarrow> True)"
    by (simp add: densities_defined_def list_all_iff)
  with ge obtain x where
    x: "density (snd (aggv limit ?g n)) (fst (aggv limit ?g n)) = Inr x"
    by (auto simp: built_sd_pair[OF L hn] split_beta split: sum.splits)
  with density_zero have "fst (aggv limit ?g n) \<noteq> 0" by metis
  with x show ?thesis by blast
qed

lemma visit_all_good:
  assumes "\<exists>g'. yai g n = Inr (dec n, g') \<and> P g'"
  shows "\<exists>g'. visit_all yai g n = Inr ((True, snd (dec n)), g') \<and> P g'"
  using assms by (cases "dec n") (auto simp: visit_all_def)

lemma tally_settled:
  "(\<And>n gs. (n, gs) \<in> set ys \<Longrightarrow> settled L g0 gs n) \<Longrightarrow>
   \<exists>r. tally ys yielded a b c = (yielded @ map fst ys, Inr r)"
proof (induction ys arbitrary: yielded a b c)
  case Nil
  then show ?case by simp
next
  case (Cons y ys)
  obtain n gs where y: "y = (n, gs)" by (cases y)
  from Cons.prems[of n gs] y obtain d where
    d: "map_of (node gs) n = Some \<lparr>attr_size = Some (fst (aggv L g0 n)), attr_descendants = Some d\<rparr>"
    by (auto simp: settled_def)
  have "\<exists>r. tally ys (yielded @ [n]) (a + d) (b + 1) (c + fst (aggv L g0 n)) =
      ((yielded @ [n]) @ map fst ys, Inr r)"
    by (rule Cons.IH) (simp add: Cons.prems)
  then show ?case by (simp add: y d)
qed

lemma dfs_built:
  assumes L: "\<forall>p \<in> set (map fst m). length p < limit"
    and hr: "has_node (sizes_to_graph m) ROOT"
    and yai: "\<And>n g. has_node (sizes_to_graph m) n \<Longrightarrow> st_ok limit (sizes_to_graph m) g \<Longrightarrow>
        \<forall>a \<in> set (parents n). settled limit (sizes_to_graph m) g a \<Longrightarrow>
        \<exists>g'. yai g n = Inr (dec n, g') \<and> st_ok limit (sizes_to_graph m) g' \<and>
          settled limit (sizes_to_graph m) g' n \<and>
          (\<forall>x. settled limit (sizes_to_graph m) g x \<longrightarrow> settled limit (sizes_to_graph m) g' x)"
    and ok: "st_ok limit (sizes_to_graph m) g"
  shows "\<exists>ys g'. dfs limit g ROOT yai = Some (ys, Inr g') \<and>
           map fst ys = walk dec (sizes_to_graph m) limit ROOT \<and>
           st_ok limit (sizes_to_graph m) g' \<and>
           (\<forall>n gs. (n, gs) \<in> set ys \<longrightarrow> settled limit (sizes_to_graph m) gs n)"
proof -
  let ?G = "sizes_to_graph m"
  note wf = sizes_to_graph_built(1)[of m]
  note Ln = built_lengths[OF L]
  note pr = built_paired[of m]
  have pr0: "\<forall>a \<in> set (parents ROOT). settled limit ?G g a" for g
    by (simp add: ROOT_def parents_Nil_iff[THEN iffD2])
  from node_descendants_settled[OF wf Ln pr hr ok pr0] obtain d g1 where
    r1: "node_descendants limit g ROOT = Inr (d, g1)" and ok1: "st_ok limit ?G g1" by blast
  have nd: "\<exists>d g'. node_descendants limit g n = Inr (d, g') \<and> st_ok limit ?G g' \<and>
          (\<forall>x. settled limit ?G g x \<longrightarrow> settled limit ?G g' x)"
    if "has_node ?G n" "st_ok limit ?G g" "\<forall>a \<in> set (parents n). settled limit ?G g a" for n g
    using node_descendants_settled[OF wf Ln pr that] .
  from dfs_loop_walk[of ?G limit yai dec limit, OF wf yai nd hr built_deep_enough[OF L] ok1 pr0]
  obtain g' ys where ok': "st_ok limit ?G g'"
    and n': "map fst ys = walk dec ?G limit ROOT"
    and s': "\<forall>n gs. (n, gs) \<in> set ys \<longrightarrow> settled limit ?G gs n"
    and eq: "\<And>rest out. dfs_loop limit yai g1 (rest @ [ROOT]) out =
           dfs_loop limit yai g' rest (out @ ys)"
    unfolding run_of_def by blast
  have "dfs limit g ROOT yai = Some (ys, Inr g')"
    using r1 eq[of "[]" "[]"] by (simp add: dfs_def dfs_loop_Nil)
  with n' ok' s' show ?thesis by blast
qed

lemma built_decision:
  assumes L: "\<forall>p \<in> set (map fst m). length p < limit"
    and dd: "densities_defined limit (sizes_to_graph m) max_zip_bytes"
    and hn: "has_node (sizes_to_graph m) n" and ok: "st_ok limit (sizes_to_graph m) g"
    and anc: "\<forall>a \<in> set (parents n). settled limit (sizes_to_graph m) g a"
  shows "\<exists>g'. yield_abort_if limit max_zip_bytes mf g n =
            Inr (decide limit (sizes_to_graph m) max_zip_bytes mf n, g') \<and>
          st_ok limit (sizes_to_graph m) g' \<and> settled limit (sizes_to_graph m) g' n \<and>
          (\<forall>x. settled limit (sizes_to_graph m) g x \<longrightarrow> settled limit (sizes_to_graph m) g' x)"
  using yield_abort_if_settled[OF sizes_to_graph_built(1) built_lengths[OF L] built_paired
      densities_definedD[OF L dd hn] hn ok anc] .

lemma selection_built:
  assumes L: "\<forall>p \<in> set (map fst m). length p < limit"
    and hr: "has_node (sizes_to_graph m) ROOT"
    and dd: "densities_defined limit (sizes_to_graph m) max_zip_bytes"
    and ok: "st_ok limit (sizes_to_graph m) g"
  shows "\<exists>ys g'. dfs limit g ROOT (yield_abort_if limit max_zip_bytes mf) = Some (ys, Inr g') \<and>
           map fst ys = walk (decide limit (sizes_to_graph m) max_zip_bytes mf)
                          (sizes_to_graph m) limit ROOT \<and>
           st_ok limit (sizes_to_graph m) g' \<and>
           (\<forall>n gs. (n, gs) \<in> set ys \<longrightarrow> settled limit (sizes_to_graph m) gs n)"
  by (rule dfs_built[OF L hr _ ok]) (rule built_decision[OF L dd])

lemma yield_zips_built:
  assumes L: "\<forall>p \<in> set (map fst m). length p < limit"
    and hr: "has_node (sizes_to_graph m) ROOT"
    and dd: "densities_defined limit (sizes_to_graph m) max_zip_bytes"
    and ok: "st_ok limit (sizes_to_graph m) g"
  shows "\<exists>r. yield_zips limit g max_zip_bytes mf =
           Some (walk (decide limit (sizes_to_graph m) max_zip_bytes mf)
                   (sizes_to_graph m) limit ROOT, r)"
proof -
  from selection_built[OF L hr dd ok, of mf] obtain ys g' where
    r: "dfs limit g ROOT (yield_abort_if limit max_zip_bytes mf) = Some (ys, Inr g')"
    and n: "map fst ys = walk (decide limit (sizes_to_graph m) max_zip_bytes mf)
                          (sizes_to_graph m) limit ROOT"
    and s: "\<And>n gs. (n, gs) \<in> set ys \<Longrightarrow> settled limit (sizes_to_graph m) gs n" by blast
  from tally_settled[of ys limit "sizes_to_graph m" "[]" 0 0 0, OF s] obtain a b c where
    t: "tally ys [] 0 0 0 = (map fst ys, Inr (a, b, c))" by auto
  show ?thesis
    unfolding yield_zips_def r using t n by (simp split: sum.splits)
qed

lemma visited_built:
  assumes L: "\<forall>p \<in> set (map fst m). length p < limit"
    and hr: "has_node (sizes_to_graph m) ROOT"
    and dd: "densities_defined limit (sizes_to_graph m) max_zip_bytes"
    and ok: "st_ok limit (sizes_to_graph m) g"
  shows "\<exists>g'. visited limit g max_zip_bytes mf =
           Some (walk (\<lambda>x. (True, snd (decide limit (sizes_to_graph m) max_zip_bytes mf x)))
                   (sizes_to_graph m) limit ROOT, Inr g')"
proof -
  let ?G = "sizes_to_graph m"
  have yai: "\<exists>g'. visit_all (yield_abort_if limit max_zip_bytes mf) g n =
          Inr ((True, snd (decide limit ?G max_zip_bytes mf n)), g') \<and>
          (st_ok limit ?G g' \<and> settled limit ?G g' n \<and>
          (\<forall>x. settled limit ?G g x \<longrightarrow> settled limit ?G g' x))"
    if "has_node ?G n" "st_ok limit ?G g" "\<forall>a \<in> set (parents n). settled limit ?G g a" for n g
    by (rule visit_all_good) (rule built_decision[OF L dd that])
  from dfs_built[OF L hr yai ok] show ?thesis
    by (auto simp: visited_def)
qed


lemma built_decide:
  assumes L: "\<forall>p \<in> set (map fst m). length p < limit" and hn: "has_node (sizes_to_graph m) n"
  shows "decide limit (sizes_to_graph m) max_zip_bytes mf n =
     (yields limit (sizes_to_graph m) max_zip_bytes n,
      aborts limit (sizes_to_graph m) max_zip_bytes mf n)"
  by (simp add: decide_def yields_def aborts_def built_sd_pair[OF L hn] split_beta)

lemma selection_facts:
  assumes L: "\<forall>p \<in> set (map fst m). length p < limit"
    and hr: "has_node (sizes_to_graph m) ROOT"
    and dd: "densities_defined limit (sizes_to_graph m) max_zip_bytes"
  shows "\<exists>out vis r g'.
     yield_zips limit (sizes_to_graph m) max_zip_bytes mf = Some (out, r) \<and>
     visited limit (sizes_to_graph m) max_zip_bytes mf = Some (vis, Inr g') \<and>
     out = filter (yields limit (sizes_to_graph m) max_zip_bytes) vis \<and>
     sorted_wrt (<) vis \<and>
     (\<forall>x. x \<in> set vis \<longleftrightarrow>
        has_node (sizes_to_graph m) x \<and> under ROOT x \<and>
        (\<forall>a. under ROOT a \<and> under a x \<and> a \<noteq> x \<longrightarrow>
           \<not> aborts limit (sizes_to_graph m) max_zip_bytes mf a))"
proof -
  let ?G = "sizes_to_graph m"
  let ?dec = "decide limit ?G max_zip_bytes mf"
  let ?vis = "walk (\<lambda>x. (True, snd (?dec x))) ?G limit ROOT"
  note wf = sizes_to_graph_built(1)[of m]
  from yield_zips_built[OF L hr dd st_ok_refl, of mf] obtain r where
    y: "yield_zips limit ?G max_zip_bytes mf = Some (walk ?dec ?G limit ROOT, r)" ..
  from visited_built[OF L hr dd st_ok_refl, of mf] obtain g' where
    v: "visited limit ?G max_zip_bytes mf = Some (?vis, Inr g')" ..
  have nodes: "has_node ?G x" if "x \<in> set ?vis" for x
    using visit_iff[OF wf hr built_deep_enough[OF L], of x "\<lambda>x. snd (?dec x)"] that by blast
  have f: "walk ?dec ?G limit ROOT = filter (yields limit ?G max_zip_bytes) ?vis"
    unfolding walk_filter[of ?dec]
    by (rule filter_cong[OF refl]) (simp add: built_decide[OF L nodes])
  have s: "sorted_wrt (<) ?vis" using wf by (rule walk_sorted)
  have c: "x \<in> set ?vis \<longleftrightarrow>
        has_node ?G x \<and> under ROOT x \<and>
        (\<forall>a. under ROOT a \<and> under a x \<and> a \<noteq> x \<longrightarrow> \<not> aborts limit ?G max_zip_bytes mf a)" for x
  proof -
    have "snd (?dec a) = aborts limit ?G max_zip_bytes mf a" if "has_node ?G x" "under a x" for a
      using built_decide[OF L wf_tree_ancestor[OF wf that]] by simp
    then show ?thesis
      using visit_iff[OF wf hr built_deep_enough[OF L], of x "\<lambda>x. snd (?dec x)"] by blast
  qed
  from y v f s c show ?thesis by blast
qed

lemma selection_facts_more:
  assumes vis: "\<forall>x. x \<in> set vis \<longleftrightarrow>
        has_node g x \<and> under ROOT x \<and> (\<forall>a. under ROOT a \<and> under a x \<and> a \<noteq> x \<longrightarrow> \<not> ab a)"
    and out: "out = filter yl vis" and s: "sorted_wrt (<) vis"
    and ya: "\<And>n. yl n \<Longrightarrow> ab n"
  shows "distinct vis" "distinct out" "sorted_wrt (<) out" "set out \<subseteq> set vis"
    "\<And>n. n \<in> set out \<longleftrightarrow> n \<in> set vis \<and> yl n"
    "\<And>n x. n \<in> set vis \<Longrightarrow> ab n \<Longrightarrow> x \<in> set vis \<Longrightarrow> under n x \<Longrightarrow> x = n"
    "\<And>r1 r2. r1 \<in> set out \<Longrightarrow> r2 \<in> set vis \<Longrightarrow> under r1 r2 \<Longrightarrow> r1 = r2"
proof -
  show dv: "distinct vis" using s by (simp add: strict_sorted_iff)
  show "distinct out" unfolding out using dv by simp
  show "sorted_wrt (<) out" unfolding out using s by (rule sorted_wrt_filter)
  show "set out \<subseteq> set vis" unfolding out by simp
  show m: "n \<in> set out \<longleftrightarrow> n \<in> set vis \<and> yl n" for n unfolding out by simp
  show p: "x = n" if "n \<in> set vis" "ab n" "x \<in> set vis" "under n x" for n x
  proof (rule ccontr)
    assume "x \<noteq> n"
    moreover from that(1) vis have "under ROOT n" by blast
    ultimately have "\<not> ab n" using that(3,4) vis by blast
    with that(2) show False by blast
  qed
  show "r1 = r2" if "r1 \<in> set out" "r2 \<in> set vis" "under r1 r2" for r1 r2
    using p[of r1 r2] that m ya by blast
qed

end
